theory Spec2Isabelle
  imports Complex_Main "HOL-Library.Finite_Map" "HOL-Library.Signed_Division"
    "HOL-Library.Stream"
begin

section \<open>Conventions of the embedding\<close>

text \<open>
  The C++ types of M6SS are embedded as follows.
  \<^item> \<open>std::chrono::nanoseconds\<close> (a signed 64-bit tick count) is an \<open>int\<close>; \<open>int\<close>,
    \<open>long\<close> and \<open>long long\<close> are \<open>int\<close>, \<open>size_t\<close> is \<open>nat\<close>. Signed overflow is
    undefined behaviour in C++ and has no value to model, so the embedding describes the runs
    in which every integer stays in range.  Integer division and remainder are the truncating
    \<open>sdiv\<close> and \<open>smod\<close>.
  \<^item> \<open>double\<close> and \<open>duration<double>\<close> are \<open>real\<close>: the embedding is exact arithmetic, with no
    rounding, no infinities and no NaN.  A \<open>duration<double>\<close> is represented by its length in
    nanoseconds.
  \<^item> \<open>std::vector<T>\<close> is a list, \<open>std::map<int, double>\<close> is a finite map,
    \<open>std::optional<T>\<close> is \<open>T option\<close>.
  \<^item> A C++ exception is a value of type \<open>error\<close>; a function that may throw returns
    \<open>error + 'a\<close>, with \<open>Inl\<close> for the exception.  \<open>undefined_behaviour\<close> marks the places
    where the C++ standard gives the program no meaning (an index outside a vector, a
    library precondition that does not hold); it is not an exception of the program.
  \<^item> A loop that need not terminate is a \<open>partial_function\<close> into \<open>option\<close>: \<open>None\<close> is the run
    that never returns.
\<close>

datatype error =
    invalid_argument string
  | out_of_range
  | bad_optional_access
  | undefined_behaviour

type_synonym 'a result = "error + 'a"

text \<open>Sequencing of computations that may throw.\<close>

definition bindR :: "'a result \<Rightarrow> ('a \<Rightarrow> 'b result) \<Rightarrow> 'b result" where
  "bindR m f = (case m of Inl e \<Rightarrow> Inl e | Inr x \<Rightarrow> f x)"

text \<open>\<open>std::optional::value()\<close>: throws when there is no value.\<close>

definition opt_value :: "'a option \<Rightarrow> 'a result" where
  "opt_value v = (case v of None \<Rightarrow> Inl bad_optional_access | Some x \<Rightarrow> Inr x)"

section \<open>TimeInterval (timeinterval.h, timeinterval.cpp)\<close>

record TimeInterval =
  start_f :: "int option"
  end_f :: "int option"

text \<open>The default constructor \<open>TimeInterval()\<close>: both optionals are disengaged.\<close>

definition TimeInterval_default :: TimeInterval where
  "TimeInterval_default = \<lparr>start_f = None, end_f = None\<rparr>"

text \<open>\<open>void set(start, end)\<close>.\<close>

definition set_bounds :: "TimeInterval \<Rightarrow> int \<Rightarrow> int \<Rightarrow> TimeInterval" where
  "set_bounds this start end = this\<lparr>start_f := Some start, end_f := Some end\<rparr>"

text \<open>The constructor \<open>TimeInterval(start, end)\<close>.\<close>

definition TimeInterval_ctor :: "int \<Rightarrow> int \<Rightarrow> TimeInterval result" where
  "TimeInterval_ctor start end =
     (if start > end
      then Inl (invalid_argument
             ''The parameter 'start' must be greater than the parameter 'end'.'')
      else Inr (set_bounds TimeInterval_default start end))"

definition isEmpty :: "TimeInterval \<Rightarrow> bool" where
  "isEmpty this = (start_f this = None)"

definition getStart :: "TimeInterval \<Rightarrow> int option" where
  "getStart this = start_f this"

definition getEnd :: "TimeInterval \<Rightarrow> int option" where
  "getEnd this = end_f this"

text \<open>\<open>length()\<close>: \<open>isEmpty() ? 0ns : end - start\<close> of the two stored values.\<close>

definition length_ti :: "TimeInterval \<Rightarrow> int result" where
  "length_ti this =
     (if isEmpty this then Inr 0
      else bindR (opt_value (end_f this)) (\<lambda>e.
           bindR (opt_value (start_f this)) (\<lambda>s. Inr (e - s))))"

definition isSubsetOf :: "TimeInterval \<Rightarrow> TimeInterval \<Rightarrow> bool result" where
  "isSubsetOf this other =
     (if isEmpty this \<or> isEmpty other then Inr False
      else bindR (opt_value (getStart other)) (\<lambda>os.
           bindR (opt_value (start_f this)) (\<lambda>s.
           if \<not> os \<le> s then Inr False
           else bindR (opt_value (getEnd other)) (\<lambda>oe.
                bindR (opt_value (end_f this)) (\<lambda>e. Inr (oe \<ge> e))))))"

text \<open>
  \<open>intersection\<close>: the four tests of the \<open>||\<close> chain are evaluated left to right and stop at
  the first that holds.
\<close>

definition intersection :: "TimeInterval \<Rightarrow> TimeInterval \<Rightarrow> TimeInterval result" where
  "intersection interval1 interval2 =
     (if isEmpty interval1 \<or> isEmpty interval2 then Inr TimeInterval_default
      else bindR (opt_value (getStart interval1)) (\<lambda>s1.
           bindR (opt_value (getEnd interval2)) (\<lambda>e2.
           if s1 > e2 then Inr TimeInterval_default
           else bindR (opt_value (getEnd interval1)) (\<lambda>e1.
                bindR (opt_value (getStart interval2)) (\<lambda>s2.
                if e1 < s2 then Inr TimeInterval_default
                else TimeInterval_ctor (max s1 s2) (min e1 e2))))))"

text \<open>
  The intervals the class hands out: the empty one of the default constructor and the
  \<open>[start, end]\<close> of the two-argument constructor, which refuses \<open>start > end\<close>.
\<close>

definition constructed :: "TimeInterval \<Rightarrow> bool" where
  "constructed I =
     (I = TimeInterval_default \<or> (\<exists>s e. TimeInterval_ctor s e = Inr I))"

text \<open>The points of time an interval denotes.\<close>

definition points :: "TimeInterval \<Rightarrow> int set" where
  "points I =
     (case (start_f I, end_f I) of (Some s, Some e) \<Rightarrow> {s..e} | _ \<Rightarrow> {})"

section \<open>SyncParameters (syncparameters.h, syncparameters.cpp)\<close>

record SyncParameters =
  chs_f :: "int list"
  s_f :: int
  pEB_f :: real
  pSR_f :: "(int, real) fmap"
  tScan_f :: int
  tSwitch_f :: int
  tEB_f :: int

text \<open>The first loop of the constructor: every channel lies in 11..26.\<close>

fun check_channel_range :: "int list \<Rightarrow> unit result" where
  "check_channel_range [] = Inr ()"
| "check_channel_range (channel # rest) =
     (if channel < 11 \<or> channel > 26
      then Inl (invalid_argument
             ''chs can not contain channel numbers less than 11 and greater than 26.'')
      else check_channel_range rest)"

text \<open>
  The nested loops over \<open>it1\<close> and \<open>it2 = it1 + 1 ..\<close>: \<open>occurs_later x rest\<close> is the inner
  loop, which looks for \<open>*it1\<close> among the later elements.
\<close>

fun occurs_later :: "int \<Rightarrow> int list \<Rightarrow> bool" where
  "occurs_later x [] = False"
| "occurs_later x (y # rest) = (if x = y then True else occurs_later x rest)"

fun check_unique :: "int list \<Rightarrow> unit result" where
  "check_unique [] = Inr ()"
| "check_unique (x # rest) =
     (if occurs_later x rest
      then Inl (invalid_argument ''chs must contain unique elements.'')
      else check_unique rest)"

text \<open>The loop over \<open>chs\<close> that looks every channel up in \<open>pSR\<close>.\<close>

fun check_pSR :: "(int, real) fmap \<Rightarrow> int list \<Rightarrow> unit result" where
  "check_pSR pSR [] = Inr ()"
| "check_pSR pSR (channel # rest) =
     (case fmlookup pSR channel of
        None \<Rightarrow> Inl (invalid_argument
                 ''pSR does not contain all the channels included in chs.'')
      | Some p \<Rightarrow>
          if p < 0 \<or> p > 1
          then Inl (invalid_argument ''pSR contains an invalid probability.'')
          else check_pSR pSR rest)"

text \<open>
  The constructor.  \<open>std::gcd(chs.size(), s)\<close> is reached with \<open>s > 0\<close> only; \<open>pSR.size()\<close>
  is the number of keys of the map.
\<close>

definition SyncParameters_ctor ::
  "int list \<Rightarrow> int \<Rightarrow> real \<Rightarrow> (int, real) fmap \<Rightarrow> int \<Rightarrow> int \<Rightarrow> int \<Rightarrow> SyncParameters result"
where
  "SyncParameters_ctor chs s pEB pSR tScan tSwitch tEB =
     bindR (check_channel_range chs) (\<lambda>_.
     bindR (check_unique chs) (\<lambda>_.
     if s \<le> 0 then Inl (invalid_argument ''s must be greater than 0.'')
     else if gcd (int (length chs)) s \<noteq> 1
     then Inl (invalid_argument
            ''The number of channels and the number of slots (s) must be co-primes.'')
     else if pEB < 0 \<or> pEB > 1 then Inl (invalid_argument ''pEB is not a valid probability.'')
     else bindR (check_pSR pSR chs) (\<lambda>_.
     if fcard (fmdom pSR) > length chs
     then Inl (invalid_argument ''pSR contains channels that are not included in chs.'')
     else if tScan \<le> 0 then Inl (invalid_argument ''tScan must be greater than 0.'')
     else if tSwitch < 0
     then Inl (invalid_argument ''tSwitch must be greater than or equal to 0.'')
     else if tEB < 0 then Inl (invalid_argument ''tEB cannot be negative.'')
     else Inr \<lparr>chs_f = chs, s_f = s, pEB_f = pEB, pSR_f = pSR,
               tScan_f = tScan, tSwitch_f = tSwitch, tEB_f = tEB\<rparr>)))"

definition getCHS :: "SyncParameters \<Rightarrow> int list" where
  "getCHS this = chs_f this"

definition getS :: "SyncParameters \<Rightarrow> int" where
  "getS this = s_f this"

definition getPeb :: "SyncParameters \<Rightarrow> real" where
  "getPeb this = pEB_f this"

definition getPsr :: "SyncParameters \<Rightarrow> (int, real) fmap" where
  "getPsr this = pSR_f this"

definition getTScan :: "SyncParameters \<Rightarrow> int" where
  "getTScan this = tScan_f this"

definition getTSwitch :: "SyncParameters \<Rightarrow> int" where
  "getTSwitch this = tSwitch_f this"

definition getTeb :: "SyncParameters \<Rightarrow> int" where
  "getTeb this = tEB_f this"

text \<open>\<open>DEFAULT_SLOT_DURATION\<close> (10 ms) and \<open>DEFAULT_TX_OFFSET\<close> (2120 us), in nanoseconds.\<close>

definition DEFAULT_SLOT_DURATION :: int where
  "DEFAULT_SLOT_DURATION = 10000000"

definition DEFAULT_TX_OFFSET :: int where
  "DEFAULT_TX_OFFSET = 2120000"

subsection \<open>The nine conditions, as the specification words them\<close>

text \<open>
  \<open>violated i\<close> says that condition \<open>i\<close> of the list 1..9 fails: (1) every channel id is
  within 11..26, (2) the ids are pairwise distinct, (3) \<open>slotsPerFrame > 0\<close>,
  (4) \<open>gcd(|channels|, slotsPerFrame) = 1\<close>, (5) \<open>pEB\<close> in [0,1], (6) \<open>pSR\<close> has an entry for
  every channel, no probability outside [0,1] and no entry for a channel outside the set,
  (7) \<open>tScan > 0\<close>, (8) \<open>tSwitch \<ge> 0\<close>, (9) \<open>tEB \<ge> 0\<close>.
\<close>

definition violated ::
  "nat \<Rightarrow> int list \<Rightarrow> int \<Rightarrow> real \<Rightarrow> (int, real) fmap \<Rightarrow> int \<Rightarrow> int \<Rightarrow> int \<Rightarrow> bool"
where
  "violated i chs s pEB pSR tScan tSwitch tEB =
     (if i = 1 then \<exists>c \<in> set chs. c < 11 \<or> 26 < c
      else if i = 2 then \<not> distinct chs
      else if i = 3 then \<not> 0 < s
      else if i = 4 then gcd (int (length chs)) s \<noteq> 1
      else if i = 5 then \<not> (0 \<le> pEB \<and> pEB \<le> 1)
      else if i = 6 then
        (\<exists>c \<in> set chs. fmlookup pSR c = None) \<or>
        (\<exists>c \<in> set chs. \<exists>p. fmlookup pSR c = Some p \<and> (p < 0 \<or> 1 < p)) \<or>
        (\<exists>c. c \<in> fmdom' pSR \<and> c \<notin> set chs)
      else if i = 7 then \<not> 0 < tScan
      else if i = 8 then \<not> 0 \<le> tSwitch
      else if i = 9 then \<not> 0 \<le> tEB
      else False)"

text \<open>The first condition of the list that fails, if any.\<close>

definition first_violated ::
  "int list \<Rightarrow> int \<Rightarrow> real \<Rightarrow> (int, real) fmap \<Rightarrow> int \<Rightarrow> int \<Rightarrow> int \<Rightarrow> nat option"
where
  "first_violated chs s pEB pSR tScan tSwitch tEB =
     List.find (\<lambda>i. violated i chs s pEB pSR tScan tSwitch tEB) [1, 2, 3, 4, 5, 6, 7, 8, 9]"

text \<open>The condition each message of the constructor reports.\<close>

definition reported_condition :: "error \<Rightarrow> nat" where
  "reported_condition e =
     (if e = invalid_argument
               ''chs can not contain channel numbers less than 11 and greater than 26.''
      then 1
      else if e = invalid_argument ''chs must contain unique elements.'' then 2
      else if e = invalid_argument ''s must be greater than 0.'' then 3
      else if e = invalid_argument
               ''The number of channels and the number of slots (s) must be co-primes.''
      then 4
      else if e = invalid_argument ''pEB is not a valid probability.'' then 5
      else if e = invalid_argument
               ''pSR does not contain all the channels included in chs.'' then 6
      else if e = invalid_argument ''pSR contains an invalid probability.'' then 6
      else if e = invalid_argument
               ''pSR contains channels that are not included in chs.'' then 6
      else if e = invalid_argument ''tScan must be greater than 0.'' then 7
      else if e = invalid_argument ''tSwitch must be greater than or equal to 0.'' then 8
      else if e = invalid_argument ''tEB cannot be negative.'' then 9
      else 0)"

definition is_invalid_argument :: "error \<Rightarrow> bool" where
  "is_invalid_argument e = (case e of invalid_argument _ \<Rightarrow> True | _ \<Rightarrow> False)"

section \<open>Containers\<close>

text \<open>\<open>std::vector::operator[]\<close>; an index out of range is undefined behaviour.\<close>

definition at_index :: "'a list \<Rightarrow> int \<Rightarrow> 'a result" where
  "at_index xs i =
     (if 0 \<le> i \<and> i < int (length xs) then Inr (xs ! nat i) else Inl undefined_behaviour)"

text \<open>\<open>std::vector::at\<close> and \<open>std::map::at\<close>; both throw \<open>std::out_of_range\<close>.\<close>

definition vector_at :: "'a list \<Rightarrow> int \<Rightarrow> 'a result" where
  "vector_at xs i =
     (if 0 \<le> i \<and> i < int (length xs) then Inr (xs ! nat i) else Inl out_of_range)"

definition map_at :: "('k, 'v) fmap \<Rightarrow> 'k \<Rightarrow> 'v result" where
  "map_at m k = (case fmlookup m k of None \<Rightarrow> Inl out_of_range | Some v \<Rightarrow> Inr v)"

section \<open>Results of the two engines (model.h, simulator.h)\<close>

record Model_Results =
  Model_avgSyncTime_f :: real
  Model_cdf_f :: "real list"

record Simulator_Results =
  Simulator_avgSyncTime_f :: real
  Simulator_cdf_f :: "real list"

definition Model_Results_cdf :: "Model_Results \<Rightarrow> nat \<Rightarrow> real result" where
  "Model_Results_cdf this steps =
     (if steps < 1 then Inl (invalid_argument ''steps must be greater than zero.'')
      else if steps \<ge> length (Model_cdf_f this) then Inr 1
      else Inr (Model_cdf_f this ! steps))"

definition Model_Results_avgSyncTime :: "Model_Results \<Rightarrow> real" where
  "Model_Results_avgSyncTime this = Model_avgSyncTime_f this"

definition Simulator_Results_cdf :: "Simulator_Results \<Rightarrow> nat \<Rightarrow> real result" where
  "Simulator_Results_cdf this steps =
     (if steps < 1 then Inl (invalid_argument ''steps must be greater than zero.'')
      else if steps \<ge> length (Simulator_cdf_f this) then Inr 1.0
      else Inr (Simulator_cdf_f this ! steps))"

definition Simulator_Results_avgSyncTime :: "Simulator_Results \<Rightarrow> real" where
  "Simulator_Results_avgSyncTime this = Simulator_avgSyncTime_f this"

section \<open>Simulator::run (simulator.cpp)\<close>

text \<open>
  The three thread-local generators, each with the distribution that is drawn from it, are
  the streams of the values these draws return: \<open>uniformIntDistributionRC\<close> (an index into
  the channel list), \<open>uniformRealDistribution0_1\<close> (a number in [0, 1)) and
  \<open>startTimeDistribution\<close> (a time within one channel rotation, in nanoseconds).
\<close>

record generators =
  randomGenerator1 :: "int stream"
  randomGenerator2 :: "real stream"
  randomGenerator3 :: "int stream"

definition randomChannel :: "int list \<Rightarrow> generators \<Rightarrow> int result \<times> generators" where
  "randomChannel availableChannels g =
     (at_index availableChannels (shd (randomGenerator1 g)),
      g\<lparr>randomGenerator1 := stl (randomGenerator1 g)\<rparr>)"

definition random :: "generators \<Rightarrow> real \<times> generators" where
  "random g = (shd (randomGenerator2 g), g\<lparr>randomGenerator2 := stl (randomGenerator2 g)\<rparr>)"

definition randomScanStartTime :: "generators \<Rightarrow> int \<times> generators" where
  "randomScanStartTime g =
     (shd (randomGenerator3 g), g\<lparr>randomGenerator3 := stl (randomGenerator3 g)\<rparr>)"

text \<open>The variables of one synchronization attempt that the \<open>while (true)\<close> loop updates.\<close>

record scan_state =
  asn :: int
  lastSelectedChannel :: int
  lastSelectionTime :: int
  nextSelectionTime :: int
  channel_switch_flag :: bool
  gens :: generators

text \<open>
  The \<open>do ... while (nextSelectionTime <= txTime)\<close> loop: the channel selections up to the scan
  period that covers \<open>txTime\<close>.  It returns \<open>scannedChannel\<close> and the updated variables.
\<close>

partial_function (option) select_channels ::
  "SyncParameters \<Rightarrow> int \<Rightarrow> scan_state \<Rightarrow> ((int \<times> scan_state) result) option"
where
  "select_channels syncParams txTime st =
     (case randomChannel (getCHS syncParams) (gens st) of
        (Inl e, g) \<Rightarrow> Some (Inl e)
      | (Inr scannedChannel, g) \<Rightarrow>
          (if (if scannedChannel \<noteq> lastSelectedChannel st
               then nextSelectionTime st + getTSwitch syncParams + getTScan syncParams
               else nextSelectionTime st + getTScan syncParams) \<le> txTime
           then select_channels syncParams txTime
                  (st\<lparr>channel_switch_flag := scannedChannel \<noteq> lastSelectedChannel st,
                      lastSelectedChannel := scannedChannel,
                      lastSelectionTime := nextSelectionTime st,
                      nextSelectionTime :=
                        (if scannedChannel \<noteq> lastSelectedChannel st
                         then nextSelectionTime st + getTSwitch syncParams + getTScan syncParams
                         else nextSelectionTime st + getTScan syncParams),
                      gens := g\<rparr>)
           else Some (Inr (scannedChannel,
                  st\<lparr>channel_switch_flag := scannedChannel \<noteq> lastSelectedChannel st,
                      lastSelectedChannel := scannedChannel,
                      lastSelectionTime := nextSelectionTime st,
                      nextSelectionTime :=
                        (if scannedChannel \<noteq> lastSelectedChannel st
                         then nextSelectionTime st + getTSwitch syncParams + getTScan syncParams
                         else nextSelectionTime st + getTScan syncParams),
                      gens := g\<rparr>))))"

text \<open>
  The \<open>while (true)\<close> loop over the minimal cells after the scan start.  It returns \<open>txTime\<close> of
  the cell in which the EB is received.
\<close>

partial_function (option) receive_EB ::
  "SyncParameters \<Rightarrow> scan_state \<Rightarrow> ((int \<times> scan_state) result) option"
where
  "receive_EB syncParams st =
     (case at_index (getCHS syncParams) (asn st smod int (length (getCHS syncParams))) of
        Inl e \<Rightarrow> Some (Inl e)
      | Inr minimalCellChannel \<Rightarrow>
          Option.bind
            (if length (getCHS syncParams) > 1 \<and>
                asn st * DEFAULT_SLOT_DURATION + DEFAULT_TX_OFFSET \<ge> nextSelectionTime st
             then select_channels syncParams
                    (asn st * DEFAULT_SLOT_DURATION + DEFAULT_TX_OFFSET) st
             else Some (Inr (lastSelectedChannel st, st)))
            (\<lambda>r. case r of
               Inl e \<Rightarrow> Some (Inl e)
             | Inr (scannedChannel, st1) \<Rightarrow>
                 if (\<not> channel_switch_flag st1 \<or>
                     asn st * DEFAULT_SLOT_DURATION + DEFAULT_TX_OFFSET
                       \<ge> lastSelectionTime st1 + getTSwitch syncParams) \<and>
                    minimalCellChannel = scannedChannel
                 then (case map_at (getPsr syncParams) scannedChannel of
                         Inl e \<Rightarrow> Some (Inl e)
                       | Inr psr \<Rightarrow>
                           if fst (random (gens st1)) < getPeb syncParams * psr
                           then Some (Inr (asn st * DEFAULT_SLOT_DURATION + DEFAULT_TX_OFFSET,
                                  st1\<lparr>gens := snd (random (gens st1))\<rparr>))
                           else receive_EB syncParams
                                  (st1\<lparr>gens := snd (random (gens st1)),
                                       asn := asn st + getS syncParams\<rparr>))
                 else receive_EB syncParams (st1\<lparr>asn := asn st + getS syncParams\<rparr>)))"

text \<open>
  The body of the \<open>for\<close> loop up to the \<open>break\<close>: one attempt, from the draw of the scan start
  time to the reception of an EB.  It returns \<open>scanStartTime\<close> and \<open>txTime\<close>.
\<close>

definition sync_attempt ::
  "SyncParameters \<Rightarrow> generators \<Rightarrow> ((int \<times> int \<times> generators) result) option"
where
  "sync_attempt syncParams g0 =
     (let (scanStartTime, g1) = randomScanStartTime g0;
          scanStartASN = scanStartTime sdiv DEFAULT_SLOT_DURATION;
          asn0 = (if scanStartASN smod getS syncParams = 0 \<and>
                     scanStartTime \<le> scanStartASN * DEFAULT_SLOT_DURATION + DEFAULT_TX_OFFSET
                  then scanStartASN
                  else scanStartASN + getS syncParams - scanStartASN smod getS syncParams)
      in case randomChannel (getCHS syncParams) g1 of
           (Inl e, g2) \<Rightarrow> Some (Inl e)
         | (Inr channel, g2) \<Rightarrow>
             Option.bind
               (receive_EB syncParams
                  \<lparr>asn = asn0, lastSelectedChannel = channel,
                   lastSelectionTime = scanStartTime,
                   nextSelectionTime =
                     scanStartTime + getTSwitch syncParams + getTScan syncParams,
                   channel_switch_flag = True, gens = g2\<rparr>)
               (\<lambda>r. case r of
                  Inl e \<Rightarrow> Some (Inl e)
                | Inr (txTime, st) \<Rightarrow> Some (Inr (scanStartTime, txTime, gens st))))"

text \<open>The update of \<open>counter\<close> for the step in which the EB was found.\<close>

definition count_step :: "(int, int) fmap \<Rightarrow> int \<Rightarrow> (int, int) fmap" where
  "count_step counter current_step =
     (case fmlookup counter current_step of
        None \<Rightarrow> fmupd current_step 1 counter
      | Some c \<Rightarrow> fmupd current_step (c + 1) counter)"

text \<open>
  \<open>current_step = ceil((txTime - scanStartTime) * 1.0 / slotframeDuration)\<close>.
\<close>

definition step_of :: "SyncParameters \<Rightarrow> int \<Rightarrow> int \<Rightarrow> int" where
  "step_of syncParams scanStartTime txTime =
     \<lceil>real_of_int (txTime - scanStartTime) * 1.0 /
        real_of_int (DEFAULT_SLOT_DURATION * getS syncParams)\<rceil>"

text \<open>
  The \<open>for (long run = 0; run < numRuns; run++)\<close> loop, by the number of runs that remain;
  it carries \<open>avg_st\<close>, \<open>counter\<close> and the generators.
\<close>

primrec attempts ::
  "SyncParameters \<Rightarrow> int \<Rightarrow> nat \<Rightarrow> real \<times> (int, int) fmap \<times> generators \<Rightarrow>
     ((real \<times> (int, int) fmap \<times> generators) result) option"
where
  "attempts syncParams numRuns 0 acc = Some (Inr acc)"
| "attempts syncParams numRuns (Suc remaining) acc =
     (case acc of (avg_st, counter, g) \<Rightarrow>
        Option.bind (sync_attempt syncParams g)
          (\<lambda>r. case r of
             Inl e \<Rightarrow> Some (Inl e)
           | Inr (scanStartTime, txTime, g') \<Rightarrow>
               attempts syncParams numRuns remaining
                 (avg_st + real_of_int (txTime - scanStartTime + getTeb syncParams)
                             / real_of_int numRuns,
                  count_step counter (step_of syncParams scanStartTime txTime),
                  g')))"

text \<open>
  The loop \<open>for (size_t i = 1; i < results.cdf_.size(); i++)\<close> that turns the counters into
  the cdf; it carries \<open>sumCounters\<close> and the vector.
\<close>

fun create_cdf ::
  "(int, int) fmap \<Rightarrow> int \<Rightarrow> nat list \<Rightarrow> int \<Rightarrow> real list \<Rightarrow> real list"
where
  "create_cdf counter numRuns [] sumCounters cdf = cdf"
| "create_cdf counter numRuns (i # rest) sumCounters cdf =
     (case fmlookup counter (int i) of
        Some c \<Rightarrow>
          create_cdf counter numRuns rest (sumCounters + c)
            (cdf[i := real_of_int (sumCounters + c) / real_of_int numRuns])
      | None \<Rightarrow>
          create_cdf counter numRuns rest sumCounters
            (cdf[i := real_of_int sumCounters / real_of_int numRuns]))"

text \<open>
  \<open>Simulator::run\<close>.  The result pairs the exception, if one was thrown, with the \<open>results\<close>
  object as the call leaves it.  Constructing \<open>uniform_int_distribution<int>(0, size - 1)\<close> for
  an empty channel list and \<open>counter.rbegin()\<close> of an empty map are undefined behaviour.
\<close>

definition Simulator_run ::
  "SyncParameters \<Rightarrow> int \<Rightarrow> Simulator_Results \<Rightarrow> generators \<Rightarrow>
     (error option \<times> Simulator_Results) option"
where
  "Simulator_run syncParams numRuns results g =
     (if numRuns \<le> 0
      then Some (Some (invalid_argument ''The parameter numRuns must be greater than 0''),
             results)
      else if length (getCHS syncParams) = 0 then Some (Some undefined_behaviour, results)
      else Option.bind (attempts syncParams numRuns (nat numRuns) (0, fmempty, g))
        (\<lambda>r. case r of
           Inl e \<Rightarrow> Some (Some e, results)
         | Inr (avg_st, counter, g') \<Rightarrow>
             if fmdom' counter = {} then Some (Some undefined_behaviour, results)
             else Some (None,
               results\<lparr>Simulator_avgSyncTime_f := avg_st,
                 Simulator_cdf_f :=
                   create_cdf counter numRuns [1..<nat (Max (fmdom' counter) + 1)] 0
                     (replicate (nat (Max (fmdom' counter) + 1)) 0)\<rparr>)))"

section \<open>Model::calculate (model.cpp)\<close>

text \<open>A \<open>for\<close> loop over the values of its counter, carrying the variables it updates.\<close>

fun for_loop :: "'i list \<Rightarrow> ('i \<Rightarrow> 'a \<Rightarrow> 'a result) \<Rightarrow> 'a \<Rightarrow> 'a result" where
  "for_loop [] body acc = Inr acc"
| "for_loop (i # rest) body acc = bindR (body i acc) (for_loop rest body)"

text \<open>
  The locals of \<open>calculate\<close> that its lambdas capture by reference.
\<close>

record locals =
  loc_Peb :: real
  loc_C :: int
  loc_Psr :: "(int, real) fmap"
  loc_Tscan :: int
  loc_Tsf :: int
  loc_Teb :: int
  loc_W :: "int list"

text \<open>The loop that fills \<open>W\<close>: \<open>W.push_back(chs[((i - 1) * syncParams.getS()) % C])\<close>.\<close>

definition build_W :: "int list \<Rightarrow> int \<Rightarrow> int \<Rightarrow> int list result" where
  "build_W chs S C =
     for_loop [1..C]
       (\<lambda>i W. bindR (at_index chs (((i - 1) * S) smod C)) (\<lambda>c. Inr (W @ [c]))) []"

definition X :: "locals \<Rightarrow> int \<Rightarrow> int \<Rightarrow> int result" where
  "X L k y = at_index (loc_W L) ((y + k - 1) smod loc_C L)"

definition Pstep :: "locals \<Rightarrow> int \<Rightarrow> int \<Rightarrow> real result" where
  "Pstep L k y =
     bindR (X L k y) (\<lambda>x.
     bindR (map_at (loc_Psr L) x) (\<lambda>psr.
       Inr (1 / real_of_int (loc_C L) * loc_Peb L * psr)))"

text \<open>
  \<open>sumOfExpectedValueInCases1and2\<close>: the \<open>while\<close> loop with its variables \<open>k\<close>,
  \<open>cumulativeProb\<close> and \<open>sum\<close>; \<open>std::pow(10, -9)\<close> is \<open>1 / 10 ^ 9\<close>.  The loop returns \<open>sum\<close> and
  the final \<open>k\<close>.
\<close>

partial_function (option) sum_while ::
  "(int \<Rightarrow> real result) \<Rightarrow> int \<Rightarrow> int \<Rightarrow> nat \<Rightarrow> real \<Rightarrow> real \<Rightarrow> ((real \<times> nat) result) option"
where
  "sum_while Psync Tsf Teb k cumulativeProb sum_v =
     (if cumulativeProb < 1 - 1 / 10 ^ 9
      then (case Psync (int k) of
              Inl e \<Rightarrow> Some (Inl e)
            | Inr p \<Rightarrow>
                sum_while Psync Tsf Teb (k + 1) (cumulativeProb + p)
                  (sum_v + p * (real (k - 1) * real_of_int Tsf + real_of_int Tsf / 2
                              + real_of_int Teb)))
      else Some (Inr (sum_v, k)))"

text \<open>It returns the sum and \<open>max_step = k - 1\<close>.\<close>

definition sumOfExpectedValueInCases1and2 ::
  "(int \<Rightarrow> real result) \<Rightarrow> int \<Rightarrow> int \<Rightarrow> ((real \<times> nat) result) option"
where
  "sumOfExpectedValueInCases1and2 Psync Tsf Teb =
     Option.bind (sum_while Psync Tsf Teb 1 0 0)
       (\<lambda>r. case r of Inl e \<Rightarrow> Some (Inl e) | Inr (sum_v, k) \<Rightarrow> Some (Inr (sum_v, k - 1)))"

text \<open>
  The lambda \<open>Psync\<close> of Case 1 and of Case 2 (the same text in both): the average of
  \<open>Psync_cond(k, y)\<close> over the offsets \<open>y = 0 .. C - 1\<close>.
\<close>

definition Psync_of :: "locals \<Rightarrow> (int \<Rightarrow> int \<Rightarrow> real result) \<Rightarrow> int \<Rightarrow> real result" where
  "Psync_of L Psync_cond k =
     for_loop [0..loc_C L - 1]
       (\<lambda>y sum_v. bindR (Psync_cond k y) (\<lambda>p. Inr (sum_v + 1 / real_of_int (loc_C L) * p))) 0"

subsection \<open>Case 1\<close>

definition Psync_cond_1 :: "locals \<Rightarrow> int \<Rightarrow> int \<Rightarrow> real result" where
  "Psync_cond_1 L k y =
     bindR (for_loop [1..k - 1]
              (\<lambda>i prod. bindR (Pstep L i y) (\<lambda>p. Inr (prod * (1 - p)))) 1) (\<lambda>prod.
     bindR (Pstep L k y) (\<lambda>p. Inr (prod * p)))"

subsection \<open>Case 2\<close>

definition Pstep_sp :: "locals \<Rightarrow> int \<Rightarrow> int \<Rightarrow> int \<Rightarrow> real result" where
  "Pstep_sp L n k y =
     (let k_f = ((k - 1) sdiv n) * n + 1;
          Nchp = (k - k_f) sdiv loc_C L
      in bindR (X L k y) (\<lambda>x.
         bindR (map_at (loc_Psr L) x) (\<lambda>psr.
         bindR (Pstep L k y) (\<lambda>p.
           Inr (power_int (1 - loc_Peb L * psr) Nchp * p)))))"

definition Qsp :: "locals \<Rightarrow> int \<Rightarrow> int \<Rightarrow> int \<Rightarrow> real result" where
  "Qsp L n i y =
     bindR (for_loop [(i - 1) * n + 1..i * n]
              (\<lambda>k sum_v. bindR (Pstep_sp L n k y) (\<lambda>p. Inr (sum_v + p))) 0) (\<lambda>sum_v.
     Inr (1 - sum_v))"

definition Psync_cond_2 :: "locals \<Rightarrow> int \<Rightarrow> int \<Rightarrow> int \<Rightarrow> real result" where
  "Psync_cond_2 L n k y =
     bindR (for_loop [1..(k - 1) sdiv n]
              (\<lambda>i prod. bindR (Qsp L n i y) (\<lambda>q. Inr (prod * q))) 1) (\<lambda>prod.
     bindR (Pstep_sp L n k y) (\<lambda>p. Inr (prod * p)))"

subsection \<open>Case 3\<close>

definition updatePSync :: "real list \<Rightarrow> nat \<Rightarrow> real \<Rightarrow> real list" where
  "updatePSync pSyncArray k p =
     (if k \<ge> length pSyncArray then pSyncArray @ [p]
      else pSyncArray[k := pSyncArray ! k + p])"

definition B :: "real \<Rightarrow> nat \<Rightarrow> bool" where
  "B n i = (real (i - 1) * n \<noteq> of_int \<lfloor>real (i - 1) * n\<rfloor>)"

definition M :: "bool \<Rightarrow> nat \<Rightarrow> nat \<Rightarrow> nat" where
  "M doesTheFirstStepOfScanPeriodCoverEBPoint k_f k =
     (if doesTheFirstStepOfScanPeriodCoverEBPoint then k - k_f + 1 else k - k_f)"

definition Pstep_inter :: "locals \<Rightarrow> bool \<Rightarrow> nat \<Rightarrow> int \<Rightarrow> nat \<Rightarrow> real result" where
  "Pstep_inter L covers k_f y k =
     bindR (X L (int k) y) (\<lambda>x.
     bindR (map_at (loc_Psr L) x) (\<lambda>psr.
     bindR (Pstep L (int k) y) (\<lambda>p.
       Inr ((1 - loc_Peb L * psr) ^ ((M covers k_f k - 1) div nat (loc_C L)) * p))))"

text \<open>
  What one call of \<open>recursiveCalc\<close> computes in its inner scope, before the recursive calls:
  the expected-time terms of the scan period, the masses \<open>Q_C\<close> and \<open>Q_NC\<close> passed on, the
  intervals \<open>Z\<close> and \<open>intersection(I, Rl)\<close>, and the updated \<open>pSyncArray\<close>.
\<close>

record scan_period =
  sp_res :: real
  sp_Q_C :: real
  sp_Q_NC :: real
  sp_Z :: TimeInterval
  sp_I_Rl :: TimeInterval
  sp_pSyncArray :: "real list"

definition time_term :: "locals \<Rightarrow> nat \<Rightarrow> int \<Rightarrow> int \<Rightarrow> real" where
  "time_term L k start len =
     real (k - 1) * real_of_int (loc_Tsf L) + real_of_int start + real_of_int len / 2
       + real_of_int (loc_Teb L)"

definition scan_period_terms ::
  "locals \<Rightarrow> real \<Rightarrow> real \<Rightarrow> nat \<Rightarrow> TimeInterval \<Rightarrow> int \<Rightarrow> real list \<Rightarrow> scan_period result"
where
  "scan_period_terms L n q i I y pSyncArray =
     bindR (TimeInterval_ctor ((int i * loc_Tscan L) smod loc_Tsf L) (loc_Tsf L)) (\<lambda>Rl.
     bindR (TimeInterval_ctor 0 ((int i * loc_Tscan L) smod loc_Tsf L)) (\<lambda>Ll.
     bindR (if B n (i + 1) then intersection I Ll else Inr I) (\<lambda>Z.
     let k_f = (if B n i then nat \<lceil>real (i - 1) * n\<rceil> else nat \<lfloor>real (i - 1) * n + 1\<rfloor>);
         k_l = nat \<lceil>real i * n\<rceil>
     in
     bindR (if \<not> B n i then Inr True
            else bindR (TimeInterval_ctor ((int (i - 1) * loc_Tscan L) smod loc_Tsf L)
                          (loc_Tsf L)) (\<lambda>Rf. isSubsetOf I Rf)) (\<lambda>covers.
     bindR (if covers then Pstep L (int k_f) y else Inr 0) (\<lambda>Pstep_first.
     bindR (opt_value (getStart I)) (\<lambda>I_start.
     bindR (length_ti I) (\<lambda>I_length.
     bindR (if B n (i + 1)
            then bindR (intersection I Ll) (\<lambda>I_Ll.
                 bindR (length_ti I_Ll) (\<lambda>l.
                   Inr (real_of_int l * 1.0 / real_of_int I_length)))
            else Inr 1) (\<lambda>Plsc.
     bindR (X L (int k_l) y) (\<lambda>x_l.
     bindR (map_at (loc_Psr L) x_l) (\<lambda>psr_l.
     bindR (Pstep L (int k_l) y) (\<lambda>p_l.
     let Psync_first = q * Pstep_first;
         E_first = Psync_first * time_term L k_f I_start I_length;
         Pstep_last =
           (1 - loc_Peb L * psr_l) ^ (M covers k_f (k_l - 1) div nat (loc_C L)) * p_l;
         Psync_last = q * Plsc * Pstep_last
     in
     bindR (if \<not> isEmpty Z
            then bindR (opt_value (getStart Z)) (\<lambda>Z_start.
                 bindR (length_ti Z) (\<lambda>Z_length.
                   Inr (Psync_last * time_term L k_l Z_start Z_length)))
            else Inr 0) (\<lambda>Elast.
     bindR (for_loop [k_f + 1..<k_l]
              (\<lambda>k s. bindR (Pstep_inter L covers k_f y k) (\<lambda>p. Inr (s + p))) 0)
       (\<lambda>sum_p_inter_step.
     bindR (intersection I Rl) (\<lambda>I_Rl.
     bindR (length_ti I_Rl) (\<lambda>l_Rl.
     bindR (for_loop [k_f + 1..<k_l]
              (\<lambda>k (res, arr). bindR (Pstep_inter L covers k_f y k) (\<lambda>p.
                 Inr (res + q * p * time_term L k I_start I_length,
                      updatePSync arr k (1.0 / real_of_int (loc_C L) * (q * p)))))
              (E_first,
               updatePSync pSyncArray k_f (1.0 / real_of_int (loc_C L) * Psync_first)))
       (\<lambda>(res, arr).
     Inr \<lparr>sp_res = res + Elast,
          sp_Q_C = q * Plsc * (1 - (Pstep_first + Pstep_last + sum_p_inter_step)),
          sp_Q_NC = q * (real_of_int l_Rl * 1.0 / real_of_int I_length) *
                      (1 - (Pstep_first + sum_p_inter_step)),
          sp_Z = Z, sp_I_Rl = I_Rl,
          sp_pSyncArray =
            updatePSync arr k_l (1.0 / real_of_int (loc_C L) * Psync_last)\<rparr>
     ))))))))))))))))"

partial_function (option) recursiveCalc ::
  "locals \<Rightarrow> real \<Rightarrow> real \<Rightarrow> nat \<Rightarrow> TimeInterval \<Rightarrow> int \<Rightarrow> real list \<Rightarrow>
     ((real \<times> real list) result) option"
where
  "recursiveCalc L n q i I y pSyncArray =
     (if isEmpty I \<or> q < 1 / 10 ^ 9 then Some (Inr (0, pSyncArray))
      else case scan_period_terms L n q i I y pSyncArray of
             Inl e \<Rightarrow> Some (Inl e)
           | Inr sp \<Rightarrow>
               Option.bind
                 (recursiveCalc L n (sp_Q_C sp) (i + 1) (sp_Z sp) y (sp_pSyncArray sp))
                 (\<lambda>r1. case r1 of
                    Inl e \<Rightarrow> Some (Inl e)
                  | Inr (t1, arr1) \<Rightarrow>
                      if B n (i + 1)
                      then Option.bind
                             (recursiveCalc L n (sp_Q_NC sp) (i + 1) (sp_I_Rl sp) y arr1)
                             (\<lambda>r2. case r2 of
                                Inl e \<Rightarrow> Some (Inl e)
                              | Inr (t2, arr2) \<Rightarrow> Some (Inr (sp_res sp + t1 + t2, arr2)))
                      else Some (Inr (sp_res sp + t1, arr1))))"

declare sum_while.simps [code]

declare recursiveCalc.simps [code]

text \<open>
  The loop \<open>for (int y = 0; y < C; y++)\<close> of Case 3, carrying \<open>Tavg_sync\<close> and \<open>pSyncArray\<close>.
\<close>

fun offsets_loop ::
  "locals \<Rightarrow> real \<Rightarrow> int list \<Rightarrow> real \<times> real list \<Rightarrow> ((real \<times> real list) result) option"
where
  "offsets_loop L n [] acc = Some (Inr acc)"
| "offsets_loop L n (y # rest) acc =
     (case acc of (Tavg_sync, pSyncArray) \<Rightarrow>
        (case TimeInterval_ctor 0 (loc_Tsf L) of
           Inl e \<Rightarrow> Some (Inl e)
         | Inr I0 \<Rightarrow>
             Option.bind (recursiveCalc L n 1.0 1 I0 y pSyncArray)
               (\<lambda>r. case r of
                  Inl e \<Rightarrow> Some (Inl e)
                | Inr (t, arr) \<Rightarrow>
                    offsets_loop L n rest
                      (Tavg_sync + 1.0 / real_of_int (loc_C L) * t, arr))))"

subsection \<open>The three cases and the cdf\<close>

text \<open>
  Each case yields \<open>Tavg_sync\<close>, \<open>max_step\<close> and the function \<open>Psync\<close> that the cdf loop calls.
\<close>

definition case_1 :: "locals \<Rightarrow> ((real \<times> nat \<times> (int \<Rightarrow> real result)) result) option" where
  "case_1 L =
     Option.bind
       (sumOfExpectedValueInCases1and2 (Psync_of L (Psync_cond_1 L)) (loc_Tsf L) (loc_Teb L))
       (\<lambda>r. case r of
          Inl e \<Rightarrow> Some (Inl e)
        | Inr (Tavg_sync, max_step) \<Rightarrow>
            Some (Inr (Tavg_sync, max_step, Psync_of L (Psync_cond_1 L))))"

definition case_2 :: "locals \<Rightarrow> ((real \<times> nat \<times> (int \<Rightarrow> real result)) result) option" where
  "case_2 L =
     (let n = loc_Tscan L sdiv loc_Tsf L in
      Option.bind
        (sumOfExpectedValueInCases1and2 (Psync_of L (Psync_cond_2 L n)) (loc_Tsf L)
           (loc_Teb L))
        (\<lambda>r. case r of
           Inl e \<Rightarrow> Some (Inl e)
         | Inr (Tavg_sync, max_step) \<Rightarrow>
             Some (Inr (Tavg_sync, max_step, Psync_of L (Psync_cond_2 L n)))))"

definition case_3 :: "locals \<Rightarrow> ((real \<times> nat \<times> (int \<Rightarrow> real result)) result) option" where
  "case_3 L =
     (let n = real_of_int (loc_Tscan L) * 1.0 / real_of_int (loc_Tsf L) in
      Option.bind (offsets_loop L n [0..loc_C L - 1] (0, [0]))
        (\<lambda>r. case r of
           Inl e \<Rightarrow> Some (Inl e)
         | Inr (Tavg_sync, pSyncArray) \<Rightarrow>
             Some (Inr (Tavg_sync, length pSyncArray - 1, vector_at pSyncArray))))"

text \<open>
  The \<open>do ... while (k <= max_step)\<close> loop that appends to \<open>cdf_\<close>; the body runs for
  \<open>k = 1\<close> in any case.
\<close>

fun cdf_loop :: "(int \<Rightarrow> real result) \<Rightarrow> nat list \<Rightarrow> real list \<Rightarrow> real list result" where
  "cdf_loop Psync [] cdf = Inr cdf"
| "cdf_loop Psync (k # rest) cdf =
     bindR (at_index cdf (int k - 1)) (\<lambda>prev.
     bindR (Psync (int k)) (\<lambda>p. cdf_loop Psync rest (cdf @ [prev + p])))"

definition calculate :: "SyncParameters \<Rightarrow> Model_Results \<Rightarrow> (Model_Results result) option" where
  "calculate syncParams results =
     (let Peb = getPeb syncParams;
          C = int (length (getCHS syncParams));
          chs = getCHS syncParams;
          Psr = getPsr syncParams;
          Tscan = getTScan syncParams;
          Tsf = DEFAULT_SLOT_DURATION * getS syncParams;
          Teb = getTeb syncParams
      in case build_W chs (getS syncParams) C of
           Inl e \<Rightarrow> Some (Inl e)
         | Inr W \<Rightarrow>
             Option.bind
               (let L = \<lparr>loc_Peb = Peb, loc_C = C, loc_Psr = Psr, loc_Tscan = Tscan,
                          loc_Tsf = Tsf, loc_Teb = Teb, loc_W = W\<rparr>
                in if Tscan < Tsf then case_1 L
                   else if Tscan smod Tsf = 0 then case_2 L
                   else case_3 L)
               (\<lambda>r. case r of
                  Inl e \<Rightarrow> Some (Inl e)
                | Inr (Tavg_sync, max_step, Psync) \<Rightarrow>
                    Some (bindR
                      (cdf_loop Psync (1 # [2..<max_step + 1])
                         (Model_cdf_f results @ [0]))
                      (\<lambda>cdf. Inr (results\<lparr>Model_avgSyncTime_f := Tavg_sync,
                                           Model_cdf_f := cdf\<rparr>)))))"

definition fresh_Model_Results :: Model_Results where
  "fresh_Model_Results = \<lparr>Model_avgSyncTime_f = 0, Model_cdf_f = []\<rparr>"

section \<open>The example of main.cpp\<close>

text \<open>
  The settings of \<open>main\<close>: \<open>SyncParameters settings(chs, 101, 0.9375, pSR, 5250ms, 0s, 4256us)\<close>
  with the default hopping sequence of four channels.
\<close>

definition main_pSR :: "(int, real) fmap" where
  "main_pSR = fmupd 11 (1/10) (fmupd 13 (9/10) (fmupd 14 (1/2) (fmupd 12 1 fmempty)))"

definition main_settings :: SyncParameters where
  "main_settings = \<lparr>chs_f = [11, 13, 14, 12], s_f = 101, pEB_f = 15/16, pSR_f = main_pSR,
     tScan_f = 5250000000, tSwitch_f = 0, tEB_f = 4256000\<rparr>"

text \<open>
  Draws in which the first scan starts 2120 us into a rotation, at the transmission instant
  of the first minimal cell, and the second at time 0; every channel draw is index 0 and every
  draw from [0, 1) is 0.
\<close>

definition draws_at_tx_offset :: generators where
  "draws_at_tx_offset =
     \<lparr>randomGenerator1 = sconst 0, randomGenerator2 = sconst 0,
      randomGenerator3 = 2120000 ## sconst 0\<rparr>"

definition draws_zero :: generators where
  "draws_zero =
     \<lparr>randomGenerator1 = sconst 0, randomGenerator2 = sconst 0,
      randomGenerator3 = sconst 0\<rparr>"

definition fresh_Simulator_Results :: Simulator_Results where
  "fresh_Simulator_Results = \<lparr>Simulator_avgSyncTime_f = 0, Simulator_cdf_f = []\<rparr>"

text \<open>An error that is neither an exception of the program's own checks.\<close>

definition benign :: "'a result \<Rightarrow> bool" where
  "benign r =
     (case r of Inl e \<Rightarrow> e = undefined_behaviour \<or> e = out_of_range | Inr _ \<Rightarrow> True)"

subsection \<open>Case 1 as the specification words it\<close>

definition prob_of :: "(int, real) fmap \<Rightarrow> int \<Rightarrow> real" where
  "prob_of pSR c = (case fmlookup pSR c of Some p \<Rightarrow> p | None \<Rightarrow> 0)"

definition W_spec :: "SyncParameters \<Rightarrow> nat \<Rightarrow> int" where
  "W_spec P j = getCHS P ! nat ((int j * getS P) mod int (length (getCHS P)))"

definition X_spec :: "SyncParameters \<Rightarrow> nat \<Rightarrow> nat \<Rightarrow> int" where
  "X_spec P k y = W_spec P ((y + k - 1) mod length (getCHS P))"

definition Pstep_spec :: "SyncParameters \<Rightarrow> nat \<Rightarrow> nat \<Rightarrow> real" where
  "Pstep_spec P k y =
     1 / real (length (getCHS P)) * getPeb P * prob_of (getPsr P) (X_spec P k y)"

definition Psync_spec_1 :: "SyncParameters \<Rightarrow> nat \<Rightarrow> real" where
  "Psync_spec_1 P k =
     (\<Sum>y = 0..<length (getCHS P).
        1 / real (length (getCHS P)) *
          ((\<Prod>i = 1..<k. 1 - Pstep_spec P i y) * Pstep_spec P k y))"

definition Tsf_of :: "SyncParameters \<Rightarrow> int" where
  "Tsf_of P = DEFAULT_SLOT_DURATION * getS P"

text \<open>
  The truncated series: the cumulative probability up to step \<open>k\<close>, the first step at which
  it reaches \<open>1 - 1e-9\<close>, and the sum of \<open>Psync(k) * [(k - 1) * Tsf + Tsf / 2 + tEB]\<close> up to a
  step.
\<close>

definition cumulative :: "(nat \<Rightarrow> real) \<Rightarrow> nat \<Rightarrow> real" where
  "cumulative f k = (\<Sum>j = 1..<k + 1. f j)"

definition truncation_step :: "(nat \<Rightarrow> real) \<Rightarrow> nat \<Rightarrow> bool" where
  "truncation_step f K =
     (1 - 1 / 10 ^ 9 \<le> cumulative f K \<and> (\<forall>j \<in> {..<K}. cumulative f j < 1 - 1 / 10 ^ 9))"

definition expected_time :: "(nat \<Rightarrow> real) \<Rightarrow> int \<Rightarrow> int \<Rightarrow> nat \<Rightarrow> real" where
  "expected_time f Tsf Teb K =
     (\<Sum>k = 1..<K + 1.
        f k * (real (k - 1) * real_of_int Tsf + real_of_int Tsf / 2 + real_of_int Teb))"

definition validly_constructed :: "SyncParameters \<Rightarrow> bool" where
  "validly_constructed P =
     (SyncParameters_ctor (getCHS P) (getS P) (getPeb P) (getPsr P) (getTScan P)
        (getTSwitch P) (getTeb P) = Inr P)"

definition W_list :: "SyncParameters \<Rightarrow> int list" where
  "W_list P = map (W_spec P) [0..<length (getCHS P)]"

definition locals_of :: "SyncParameters \<Rightarrow> locals" where
  "locals_of P =
     \<lparr>loc_Peb = getPeb P, loc_C = int (length (getCHS P)), loc_Psr = getPsr P,
      loc_Tscan = getTScan P, loc_Tsf = Tsf_of P, loc_Teb = getTeb P, loc_W = W_list P\<rparr>"

text \<open>
  A Case-1 example with one channel: \<open>pEB = 1\<close>, \<open>pSR[11] = 0.999\<close>, a scan period of 5 ms and
  a slotframe of one slot (10 ms).
\<close>

definition one_channel_pSR :: "(int, real) fmap" where
  "one_channel_pSR = fmupd 11 (999/1000) fmempty"

definition one_channel_settings :: SyncParameters where
  "one_channel_settings = \<lparr>chs_f = [11], s_f = 1, pEB_f = 1, pSR_f = one_channel_pSR,
     tScan_f = 5000000, tSwitch_f = 0, tEB_f = 4256000\<rparr>"

subsection \<open>Case 2 as the specification words it\<close>

text \<open>
  The scan period covers \<open>n = tScan / Tsf\<close> steps.  \<open>first_step n k\<close> is the first step \<open>k_f\<close> of
  the scan period that contains step \<open>k\<close>, and \<open>Nchp\<close> the exponent of the survival factor.
\<close>

definition periods :: "SyncParameters \<Rightarrow> nat" where
  "periods P = nat (getTScan P div Tsf_of P)"

definition first_step :: "nat \<Rightarrow> nat \<Rightarrow> nat" where
  "first_step n k = ((k - 1) div n) * n + 1"

definition Nchp_spec :: "SyncParameters \<Rightarrow> nat \<Rightarrow> nat" where
  "Nchp_spec P k = (k - first_step (periods P) k) div length (getCHS P)"

text \<open>
  The number of visits already made, within the scan period of step \<open>k\<close>, to the channel
  that is scheduled at step \<open>k\<close>.
\<close>

definition visits_before :: "SyncParameters \<Rightarrow> nat \<Rightarrow> nat \<Rightarrow> nat" where
  "visits_before P k y =
     card {k' \<in> {first_step (periods P) k..<k}. X_spec P k' y = X_spec P k y}"

definition Pstep_sp_spec :: "SyncParameters \<Rightarrow> nat \<Rightarrow> nat \<Rightarrow> real" where
  "Pstep_sp_spec P k y =
     (1 - getPeb P * prob_of (getPsr P) (X_spec P k y)) ^ Nchp_spec P k * Pstep_spec P k y"

definition Qsp_spec :: "SyncParameters \<Rightarrow> nat \<Rightarrow> nat \<Rightarrow> real" where
  "Qsp_spec P i y =
     1 - (\<Sum>k = (i - 1) * periods P + 1..<i * periods P + 1. Pstep_sp_spec P k y)"

definition Psync_spec_2 :: "SyncParameters \<Rightarrow> nat \<Rightarrow> real" where
  "Psync_spec_2 P k =
     (\<Sum>y = 0..<length (getCHS P).
        1 / real (length (getCHS P)) *
          ((\<Prod>i = 1..<(k - 1) div periods P + 1. Qsp_spec P i y) * Pstep_sp_spec P k y))"

text \<open>
  The cross-validation example of the specification: four channels, 101 slots per frame,
  \<open>pEB = 1\<close>, every \<open>pSR\<close> entry 1 and \<open>tScan = 4 * Tsf\<close>.
\<close>

definition certain_pSR :: "(int, real) fmap" where
  "certain_pSR = fmupd 11 1 (fmupd 13 1 (fmupd 14 1 (fmupd 12 1 fmempty)))"

definition aligned_settings :: SyncParameters where
  "aligned_settings = \<lparr>chs_f = [11, 13, 14, 12], s_f = 101, pEB_f = 1, pSR_f = certain_pSR,
     tScan_f = 4040000000, tSwitch_f = 0, tEB_f = 4256000\<rparr>"

text \<open>
  The settings of \<open>main.cpp\<close> with a scan period of 0.5 s (shorter than the slotframe of
  1.01 s) and no beacon ever sent (\<open>pEB = 0\<close>).
\<close>

definition silent_settings :: SyncParameters where
  "silent_settings = \<lparr>chs_f = [11, 13, 14, 12], s_f = 101, pEB_f = 0, pSR_f = main_pSR,
     tScan_f = 500000000, tSwitch_f = 0, tEB_f = 4256000\<rparr>"

section \<open>Properties of the result monad and of TimeInterval\<close>

lemma bindR_Inr [simp]: "bindR (Inr x) f = f x"
  by (simp add: bindR_def)

lemma bindR_Inl [simp]: "bindR (Inl e) f = Inl e"
  by (simp add: bindR_def)

lemma opt_value_Some [simp]: "opt_value (Some x) = Inr x"
  by (simp add: opt_value_def)

lemma opt_value_None [simp]: "opt_value None = Inl bad_optional_access"
  by (simp add: opt_value_def)

lemma constructed_cases:
  "constructed I \<longleftrightarrow>
     I = \<lparr>start_f = None, end_f = None\<rparr> \<or>
     (\<exists>s e. s \<le> e \<and> I = \<lparr>start_f = Some s, end_f = Some e\<rparr>)"
proof -
  have ctor: "TimeInterval_ctor s e = Inr J \<longleftrightarrow>
      s \<le> e \<and> J = \<lparr>start_f = Some s, end_f = Some e\<rparr>" for s e J
    by (auto simp: TimeInterval_ctor_def TimeInterval_default_def set_bounds_def)
  show ?thesis
    unfolding constructed_def ctor TimeInterval_default_def by blast
qed

lemma points_constructed:
  "constructed I \<Longrightarrow> \<not> isEmpty I \<Longrightarrow>
     \<exists>s e. s \<le> e \<and> I = \<lparr>start_f = Some s, end_f = Some e\<rparr> \<and> points I = {s..e}"
  by (auto simp: constructed_cases isEmpty_def points_def)

lemma intersection_self:
  assumes "constructed I"
  shows "intersection I I = Inr I"
proof (cases "isEmpty I")
  case True
  with assms have "I = \<lparr>start_f = None, end_f = None\<rparr>"
    by (auto simp: constructed_cases isEmpty_def)
  then show ?thesis
    by (simp add: intersection_def isEmpty_def TimeInterval_default_def)
next
  case False
  with assms obtain s e where "s \<le> e" "I = \<lparr>start_f = Some s, end_f = Some e\<rparr>"
    using points_constructed by blast
  then show ?thesis
    by (simp add: intersection_def isEmpty_def getStart_def getEnd_def
        TimeInterval_ctor_def set_bounds_def TimeInterval_default_def)
qed

lemma intersection_disjoint:
  assumes "constructed I" "constructed J" "\<not> isEmpty I" "\<not> isEmpty J"
    and "points I \<inter> points J = {}"
  shows "intersection I J = Inr TimeInterval_default"
proof -
  obtain s1 e1 where I: "s1 \<le> e1" "I = \<lparr>start_f = Some s1, end_f = Some e1\<rparr>"
    "points I = {s1..e1}"
    using points_constructed [OF assms(1,3)] by blast
  obtain s2 e2 where J: "s2 \<le> e2" "J = \<lparr>start_f = Some s2, end_f = Some e2\<rparr>"
    "points J = {s2..e2}"
    using points_constructed [OF assms(2,4)] by blast
  have "{s1..e1} \<inter> {s2..e2} = {}"
    using assms(5) I(3) J(3) by simp
  then have "max s1 s2 \<notin> {s1..e1} \<inter> {s2..e2}"
    by simp
  with I(1) J(1) have "s1 > e2 \<or> e1 < s2"
    by (simp add: max_def split: if_splits)
  then show ?thesis
    by (auto simp: I(2) J(2) intersection_def isEmpty_def getStart_def getEnd_def)
qed

text \<open>
  C8.  For every interval \<open>I\<close> built by the constructors of the class,
  \<open>intersection(I, I)\<close> is \<open>I\<close>; for two non-empty such intervals with no point of time
  in common the intersection is the empty interval; an empty interval has length 0; and
  \<open>isSubsetOf\<close> is false as soon as the receiver or the argument is empty.
\<close>

theorem TimeInterval_laws:
  "(constructed I \<longrightarrow> intersection I I = Inr I) \<and>
   (constructed I \<and> constructed J \<and> \<not> isEmpty I \<and> \<not> isEmpty J \<and>
      points I \<inter> points J = {} \<longrightarrow>
        intersection I J = Inr TimeInterval_default \<and> isEmpty TimeInterval_default) \<and>
   (isEmpty I \<longrightarrow> length_ti I = Inr 0) \<and>
   (isEmpty I \<or> isEmpty J \<longrightarrow> isSubsetOf I J = Inr False)"
  using intersection_self [of I] intersection_disjoint [of I J]
  by (simp add: length_ti_def isSubsetOf_def isEmpty_def TimeInterval_default_def)

theorem TimeInterval_laws_witness:
  "intersection \<lparr>start_f = Some 1, end_f = Some 4\<rparr> \<lparr>start_f = Some 1, end_f = Some 4\<rparr>
     = Inr \<lparr>start_f = Some 1, end_f = Some 4\<rparr> \<and>
   intersection TimeInterval_default TimeInterval_default = Inr TimeInterval_default \<and>
   intersection \<lparr>start_f = Some 1, end_f = Some 4\<rparr> \<lparr>start_f = Some 6, end_f = Some 9\<rparr>
     = Inr TimeInterval_default \<and>
   length_ti TimeInterval_default = Inr 0 \<and>
   isSubsetOf TimeInterval_default \<lparr>start_f = Some 1, end_f = Some 4\<rparr> = Inr False \<and>
   isSubsetOf \<lparr>start_f = Some 1, end_f = Some 4\<rparr> TimeInterval_default = Inr False"
proof -
  let ?A = "\<lparr>start_f = Some (1::int), end_f = Some (4::int)\<rparr>"
  let ?B = "\<lparr>start_f = Some (6::int), end_f = Some (9::int)\<rparr>"
  have cA: "constructed ?A" and cB: "constructed ?B"
    by (simp_all add: constructed_cases)
  have cE: "constructed TimeInterval_default"
    by (simp add: constructed_def)
  have nA: "\<not> isEmpty ?A" and nB: "\<not> isEmpty ?B" and eE: "isEmpty TimeInterval_default"
    by (simp_all add: isEmpty_def TimeInterval_default_def)
  have dj: "points ?A \<inter> points ?B = {}"
    by (simp add: points_def)
  show ?thesis
    using TimeInterval_laws [of ?A ?B] TimeInterval_laws [of TimeInterval_default ?A]
      TimeInterval_laws [of ?A TimeInterval_default] cA cB cE nA nB eE dj
    by simp
qed

section \<open>Properties of the SyncParameters constructor\<close>

lemma check_channel_range_cases:
  "check_channel_range chs =
     (if \<exists>c \<in> set chs. c < 11 \<or> 26 < c
      then Inl (invalid_argument
             ''chs can not contain channel numbers less than 11 and greater than 26.'')
      else Inr ())"
  by (induction chs) auto

lemma occurs_later_iff: "occurs_later x xs \<longleftrightarrow> x \<in> set xs"
  by (induction xs) auto

lemma check_unique_cases:
  "check_unique chs =
     (if distinct chs then Inr ()
      else Inl (invalid_argument ''chs must contain unique elements.''))"
  by (induction chs) (auto simp: occurs_later_iff)

lemma check_pSR_ok:
  "check_pSR pSR chs = Inr () \<longleftrightarrow>
     (\<forall>c \<in> set chs. \<exists>p. fmlookup pSR c = Some p \<and> 0 \<le> p \<and> p \<le> 1)"
  by (induction chs) (auto split: option.splits)

lemma check_pSR_error:
  "check_pSR pSR chs = Inl e \<Longrightarrow>
     e = invalid_argument ''pSR does not contain all the channels included in chs.'' \<or>
     e = invalid_argument ''pSR contains an invalid probability.''"
  by (induction chs) (auto split: option.splits if_splits)

lemma extra_entries_iff:
  assumes "distinct chs" "set chs \<subseteq> fmdom' pSR"
  shows "fcard (fmdom pSR) > length chs \<longleftrightarrow> (\<exists>c. c \<in> fmdom' pSR \<and> c \<notin> set chs)"
proof -
  have card: "fcard (fmdom pSR) = card (fmdom' pSR)"
    by (simp add: fcard.rep_eq fmdom'_alt_def)
  have len: "length chs = card (set chs)"
    using assms(1) by (simp add: distinct_card)
  show ?thesis
  proof
    assume "fcard (fmdom pSR) > length chs"
    then have "set chs \<noteq> fmdom' pSR" using card len by auto
    with assms(2) show "\<exists>c. c \<in> fmdom' pSR \<and> c \<notin> set chs" by blast
  next
    assume "\<exists>c. c \<in> fmdom' pSR \<and> c \<notin> set chs"
    with assms(2) have "set chs \<subset> fmdom' pSR" by blast
    then have "card (set chs) < card (fmdom' pSR)"
      by (simp add: psubset_card_mono)
    then show "fcard (fmdom pSR) > length chs" using card len by simp
  qed
qed


lemma violated_simps:
  "violated 1 chs s pEB pSR tScan tSwitch tEB \<longleftrightarrow> (\<exists>c \<in> set chs. c < 11 \<or> 26 < c)"
  "violated 2 chs s pEB pSR tScan tSwitch tEB \<longleftrightarrow> \<not> distinct chs"
  "violated 3 chs s pEB pSR tScan tSwitch tEB \<longleftrightarrow> \<not> 0 < s"
  "violated 4 chs s pEB pSR tScan tSwitch tEB \<longleftrightarrow> gcd (int (length chs)) s \<noteq> 1"
  "violated 5 chs s pEB pSR tScan tSwitch tEB \<longleftrightarrow> \<not> (0 \<le> pEB \<and> pEB \<le> 1)"
  "violated 6 chs s pEB pSR tScan tSwitch tEB \<longleftrightarrow>
        (\<exists>c \<in> set chs. fmlookup pSR c = None) \<or>
        (\<exists>c \<in> set chs. \<exists>p. fmlookup pSR c = Some p \<and> (p < 0 \<or> 1 < p)) \<or>
        (\<exists>c. c \<in> fmdom' pSR \<and> c \<notin> set chs)"
  "violated 7 chs s pEB pSR tScan tSwitch tEB \<longleftrightarrow> \<not> 0 < tScan"
  "violated 8 chs s pEB pSR tScan tSwitch tEB \<longleftrightarrow> \<not> 0 \<le> tSwitch"
  "violated 9 chs s pEB pSR tScan tSwitch tEB \<longleftrightarrow> \<not> 0 \<le> tEB"
  by (simp_all add: violated_def)

lemma first_violated_unfold:
  "first_violated chs s pEB pSR tScan tSwitch tEB =
     (if violated 1 chs s pEB pSR tScan tSwitch tEB then Some 1
      else if violated 2 chs s pEB pSR tScan tSwitch tEB then Some 2
      else if violated 3 chs s pEB pSR tScan tSwitch tEB then Some 3
      else if violated 4 chs s pEB pSR tScan tSwitch tEB then Some 4
      else if violated 5 chs s pEB pSR tScan tSwitch tEB then Some 5
      else if violated 6 chs s pEB pSR tScan tSwitch tEB then Some 6
      else if violated 7 chs s pEB pSR tScan tSwitch tEB then Some 7
      else if violated 8 chs s pEB pSR tScan tSwitch tEB then Some 8
      else if violated 9 chs s pEB pSR tScan tSwitch tEB then Some 9
      else None)"
  unfolding first_violated_def List.find.simps by (rule refl)

lemma some_violated_iff:
  "(\<exists>i \<in> {1..9}. violated i chs s pEB pSR tScan tSwitch tEB) \<longleftrightarrow>
     first_violated chs s pEB pSR tScan tSwitch tEB \<noteq> None"
proof -
  have eq: "{1..9::nat} = set [1, 2, 3, 4, 5, 6, 7, 8, 9]"
    by auto
  show ?thesis
    unfolding first_violated_def find_None_iff eq by blast
qed

lemma check_pSR_fails_iff:
  "(\<exists>e. check_pSR pSR chs = Inl e) \<longleftrightarrow>
     (\<exists>c \<in> set chs. fmlookup pSR c = None) \<or>
     (\<exists>c \<in> set chs. \<exists>p. fmlookup pSR c = Some p \<and> (p < 0 \<or> 1 < p))"
proof -
  have "(\<exists>e. check_pSR pSR chs = Inl e) \<longleftrightarrow> check_pSR pSR chs \<noteq> Inr ()"
    by (cases "check_pSR pSR chs") auto
  also have "\<dots> \<longleftrightarrow> \<not> (\<forall>c \<in> set chs. \<exists>p. fmlookup pSR c = Some p \<and> 0 \<le> p \<and> p \<le> 1)"
    by (simp add: check_pSR_ok)
  also have "\<dots> \<longleftrightarrow> (\<exists>c \<in> set chs. fmlookup pSR c = None) \<or>
     (\<exists>c \<in> set chs. \<exists>p. fmlookup pSR c = Some p \<and> (p < 0 \<or> 1 < p))"
    by (metis not_le option.exhaust option.distinct(1) option.inject)
  finally show ?thesis .
qed

lemma not_violated_6:
  fixes pSR :: "(int, real) fmap"
  assumes "\<not> ((\<exists>c \<in> set chs. fmlookup pSR c = None) \<or>
        (\<exists>c \<in> set chs. \<exists>p. fmlookup pSR c = Some p \<and> (p < 0 \<or> 1 < p)) \<or>
        (\<exists>c. c \<in> fmdom' pSR \<and> c \<notin> set chs))"
  shows "\<forall>c \<in> set chs. \<exists>p. fmlookup pSR c = Some p \<and> 0 \<le> p \<and> p \<le> 1"
    and "\<not> (\<exists>c. c \<in> fmdom' pSR \<and> c \<notin> set chs)"
proof -
  from assms have "\<not> (\<exists>e. check_pSR pSR chs = Inl e)"
    unfolding check_pSR_fails_iff by blast
  then have "check_pSR pSR chs = Inr ()"
    by (cases "check_pSR pSR chs") auto
  then show "\<forall>c \<in> set chs. \<exists>p. fmlookup pSR c = Some p \<and> 0 \<le> p \<and> p \<le> 1"
    by (simp add: check_pSR_ok)
  from assms show "\<not> (\<exists>c. c \<in> fmdom' pSR \<and> c \<notin> set chs)"
    by blast
qed

lemma reported_6:
  "e = invalid_argument ''pSR does not contain all the channels included in chs.'' \<or>
   e = invalid_argument ''pSR contains an invalid probability.'' \<Longrightarrow>
   reported_condition e = 6 \<and> is_invalid_argument e"
  by (auto simp: reported_condition_def is_invalid_argument_def)




text \<open>
  C10.  The constructor accepts an empty channel sequence: with \<open>chs = []\<close>, \<open>s = 1\<close>, an
  empty \<open>pSR\<close> and valid remaining arguments no check fails, and the object built has no
  channel.
\<close>

theorem SyncParameters_ctor_empty_chs:
  assumes "0 \<le> pEB" "pEB \<le> 1" "0 < tScan" "0 \<le> tSwitch" "0 \<le> tEB"
  shows "\<exists>p. SyncParameters_ctor [] 1 pEB fmempty tScan tSwitch tEB = Inr p \<and>
           getCHS p = [] \<and> length (getCHS p) = 0 \<and> getS p = 1 \<and> getPsr p = fmempty"
  using assms by (simp add: SyncParameters_ctor_def getCHS_def getS_def getPsr_def)

theorem SyncParameters_ctor_empty_chs_witness:
  "\<exists>p. SyncParameters_ctor [] 1 (15/16) fmempty 5250000000 0 4256000 = Inr p \<and>
           getCHS p = [] \<and> length (getCHS p) = 0 \<and> getS p = 1 \<and> getPsr p = fmempty"
  using SyncParameters_ctor_empty_chs [of "15/16" 5250000000 0 4256000] by simp

section \<open>Properties of the Results accessors\<close>

text \<open>
  C6.  For the Results type of either engine, \<open>cdf(steps)\<close> throws \<open>invalid_argument\<close> when
  \<open>steps < 1\<close> (that is, \<open>steps = 0\<close>); for \<open>steps \<ge> 1\<close> beyond the last recorded index it
  returns exactly 1; and for a recorded step it returns the stored value.
\<close>

theorem Results_cdf_query:
  "(steps < 1 \<longrightarrow>
      steps = 0 \<and>
      Model_Results_cdf mr steps = Inl (invalid_argument ''steps must be greater than zero.'') \<and>
      Simulator_Results_cdf sr steps =
        Inl (invalid_argument ''steps must be greater than zero.'')) \<and>
   (1 \<le> steps \<and> int steps > int (length (Model_cdf_f mr)) - 1 \<longrightarrow>
      Model_Results_cdf mr steps = Inr 1) \<and>
   (1 \<le> steps \<and> int steps > int (length (Simulator_cdf_f sr)) - 1 \<longrightarrow>
      Simulator_Results_cdf sr steps = Inr 1) \<and>
   (1 \<le> steps \<and> steps < length (Model_cdf_f mr) \<longrightarrow>
      Model_Results_cdf mr steps = Inr (Model_cdf_f mr ! steps)) \<and>
   (1 \<le> steps \<and> steps < length (Simulator_cdf_f sr) \<longrightarrow>
      Simulator_Results_cdf sr steps = Inr (Simulator_cdf_f sr ! steps))"
  by (auto simp: Model_Results_cdf_def Simulator_Results_cdf_def)

theorem Results_cdf_query_witness:
  "Model_Results_cdf \<lparr>Model_avgSyncTime_f = 3, Model_cdf_f = [0, 1/4, 3/4]\<rparr> 0 =
     Inl (invalid_argument ''steps must be greater than zero.'') \<and>
   Simulator_Results_cdf \<lparr>Simulator_avgSyncTime_f = 3, Simulator_cdf_f = [0, 1/2]\<rparr> 0 =
     Inl (invalid_argument ''steps must be greater than zero.'') \<and>
   Model_Results_cdf \<lparr>Model_avgSyncTime_f = 3, Model_cdf_f = [0, 1/4, 3/4]\<rparr> 3 = Inr 1 \<and>
   Simulator_Results_cdf \<lparr>Simulator_avgSyncTime_f = 3, Simulator_cdf_f = [0, 1/2]\<rparr> 2 =
     Inr 1 \<and>
   Model_Results_cdf \<lparr>Model_avgSyncTime_f = 3, Model_cdf_f = [0, 1/4, 3/4]\<rparr> 2 =
     Inr (3/4) \<and>
   Simulator_Results_cdf \<lparr>Simulator_avgSyncTime_f = 3, Simulator_cdf_f = [0, 1/2]\<rparr> 1 =
     Inr (1/2)"
proof -
  let ?mr = "\<lparr>Model_avgSyncTime_f = 3, Model_cdf_f = [0, 1/4, 3/4]\<rparr>"
  let ?sr = "\<lparr>Simulator_avgSyncTime_f = 3, Simulator_cdf_f = [0, 1/2]\<rparr>"
  have lm: "length (Model_cdf_f ?mr) = 3" and ls: "length (Simulator_cdf_f ?sr) = 2"
    by simp_all
  have nm: "Model_cdf_f ?mr ! 2 = 3/4" and ns: "Simulator_cdf_f ?sr ! 1 = 1/2"
    by simp_all
  have a: "Model_Results_cdf ?mr 0 =
      Inl (invalid_argument ''steps must be greater than zero.'')"
     "Simulator_Results_cdf ?sr 0 =
      Inl (invalid_argument ''steps must be greater than zero.'')"
    using Results_cdf_query [of 0 ?mr ?sr] by simp_all
  have b: "Model_Results_cdf ?mr 3 = Inr 1"
    using Results_cdf_query [of 3 ?mr ?sr] unfolding lm by simp
  have c: "Simulator_Results_cdf ?sr 2 = Inr 1"
    using Results_cdf_query [of 2 ?mr ?sr] unfolding ls by simp
  have d: "Model_Results_cdf ?mr 2 = Inr (3/4)"
    using Results_cdf_query [of 2 ?mr ?sr] unfolding lm nm by simp
  have e: "Simulator_Results_cdf ?sr 1 = Inr (1/2)"
    using Results_cdf_query [of 1 ?mr ?sr] unfolding ls ns by simp
  from a b c d e show ?thesis by blast
qed

section \<open>Properties of Simulator::run\<close>

lemma benign_simps [simp]:
  "benign (Inr x)" "benign (Inl e) \<longleftrightarrow> e = undefined_behaviour \<or> e = out_of_range"
  by (simp_all add: benign_def)

lemma randomChannel_benign: "benign (fst (randomChannel chs g))"
  by (simp add: randomChannel_def at_index_def)

lemma map_at_benign: "benign (map_at m k)"
  by (simp add: map_at_def split: option.splits)

lemma at_index_benign: "benign (at_index xs i)"
  by (simp add: at_index_def)

lemma select_channels_benign:
  assumes "select_channels syncParams txTime st = Some r"
  shows "benign r"
proof (rule select_channels.raw_induct [where P = "\<lambda>_ _ _ r. benign r", OF _ assms], goal_cases)
  case (1 select_channels syncParams txTime st r)
  show ?case
  proof (cases "randomChannel (getCHS syncParams) (gens st)")
    case (Pair a g)
    show ?thesis
    proof (cases a)
      case (Inl e')
      with Pair 1(2) randomChannel_benign [of "getCHS syncParams" "gens st"] show ?thesis by auto
    next
      case (Inr ch)
      with Pair 1(2) 1(1) show ?thesis
        by (auto split: if_splits)
    qed
  qed
qed

lemma receive_EB_benign:
  assumes "receive_EB syncParams st = Some r"
  shows "benign r"
proof (rule receive_EB.raw_induct [where P = "\<lambda>_ _ r. benign r", OF _ assms], goal_cases)
  case (1 receive_EB syncParams st r)
  show ?case
  proof (cases "at_index (getCHS syncParams) (asn st smod int (length (getCHS syncParams)))")
    case (Inl e)
    with 1(2) at_index_benign [of "getCHS syncParams" "asn st smod int (length (getCHS syncParams))"]
    show ?thesis by auto
  next
    case (Inr minimalCellChannel)
    let ?sel = "if length (getCHS syncParams) > 1 \<and>
                asn st * DEFAULT_SLOT_DURATION + DEFAULT_TX_OFFSET \<ge> nextSelectionTime st
             then select_channels syncParams
                    (asn st * DEFAULT_SLOT_DURATION + DEFAULT_TX_OFFSET) st
             else Some (Inr (lastSelectedChannel st, st))"
    from 1(2) Inr obtain sr where sr: "?sel = Some sr"
      by (cases ?sel) auto
    then have bsr: "benign sr"
      using select_channels_benign by (auto split: if_splits)
    show ?thesis
    proof (cases sr)
      case (Inl e)
      with 1(2) Inr sr bsr show ?thesis by auto
    next
      case (Inr p)
      obtain scannedChannel st1 where p: "p = (scannedChannel, st1)" by (cases p)
      from 1(2) \<open>at_index _ _ = Inr minimalCellChannel\<close> sr Inr p 1(1)
        map_at_benign [of "getPsr syncParams" scannedChannel]
      show ?thesis
        by (auto split: if_splits sum.splits)
    qed
  qed
qed

lemma sync_attempt_benign:
  "sync_attempt syncParams g = Some r \<Longrightarrow> benign r"
  unfolding sync_attempt_def
  using randomChannel_benign [of "getCHS syncParams" "snd (randomScanStartTime g)"]
  by (auto simp: Let_def split: sum.splits if_splits prod.splits Option.bind_splits
        dest: receive_EB_benign)

lemma attempts_benign:
  "attempts syncParams numRuns n acc = Some r \<Longrightarrow> benign r"
proof (induction n arbitrary: acc)
  case 0
  then show ?case by auto
next
  case (Suc n)
  from Suc.prems show ?case
    by (auto split: sum.splits prod.splits Option.bind_splits
        dest: sync_attempt_benign Suc.IH)
qed

lemma Simulator_run_error:
  "Simulator_run syncParams numRuns results g = Some (Some e, r) \<Longrightarrow>
     r = results \<and>
     (if numRuns \<le> 0
      then e = invalid_argument ''The parameter numRuns must be greater than 0''
      else e = undefined_behaviour \<or> e = out_of_range)"
  unfolding Simulator_run_def
  by (auto split: sum.splits prod.splits Option.bind_splits if_splits
        dest: attempts_benign)

text \<open>
  C7.  \<open>Simulator::run\<close> throws \<open>invalid_argument\<close> if and only if \<open>numRuns \<le> 0\<close>.  The test
  comes first: for \<open>numRuns \<le> 0\<close> the outcome is this exception whatever the parameters and
  the generators are, and whenever the call throws, the supplied \<open>results\<close> object is left as
  it was.
\<close>

theorem Simulator_run_numRuns_guard:
  "(numRuns \<le> 0 \<longrightarrow>
      Simulator_run syncParams numRuns results g =
        Some (Some (invalid_argument ''The parameter numRuns must be greater than 0''),
          results)) \<and>
   ((\<exists>e r. Simulator_run syncParams numRuns results g = Some (Some e, r) \<and>
        is_invalid_argument e) \<longleftrightarrow> numRuns \<le> 0) \<and>
   (\<forall>e r. Simulator_run syncParams numRuns results g = Some (Some e, r) \<longrightarrow> r = results)"
proof -
  have guard: "numRuns \<le> 0 \<Longrightarrow>
      Simulator_run syncParams numRuns results g =
        Some (Some (invalid_argument ''The parameter numRuns must be greater than 0''),
          results)"
    by (simp add: Simulator_run_def)
  have "is_invalid_argument e \<longleftrightarrow> numRuns \<le> 0"
    if "Simulator_run syncParams numRuns results g = Some (Some e, r)" for e r
    using Simulator_run_error [OF that]
    by (auto simp: is_invalid_argument_def split: if_splits)
  moreover have "\<exists>e r. Simulator_run syncParams numRuns results g = Some (Some e, r) \<and>
        is_invalid_argument e" if "numRuns \<le> 0"
    using guard [OF that] by (auto simp: is_invalid_argument_def)
  ultimately show ?thesis
    using guard Simulator_run_error by blast
qed

subsection \<open>A run of the example settings\<close>

lemma gcd_4_101: "gcd (4::int) 101 = 1"
  by code_simp

lemma main_settings_constructed:
  "SyncParameters_ctor [11, 13, 14, 12] 101 (15/16) main_pSR 5250000000 0 4256000 =
     Inr main_settings"
  by (simp add: SyncParameters_ctor_def main_settings_def main_pSR_def fcard_finsert_if
      gcd_4_101)

lemma trunc_div_examples:
  "(0::int) smod 4 = 0" "(0::int) smod 101 = 0" "(0::int) sdiv 10000000 = 0"
  "(2120000::int) sdiv 10000000 = 0"
  by (simp_all add: signed_modulo_int_def signed_divide_int_def)

lemma attempt_at_tx_offset:
  "sync_attempt main_settings draws_at_tx_offset = Some (Inr (2120000, 2120000, draws_zero))"
  unfolding sync_attempt_def
  apply (simp add: randomScanStartTime_def draws_at_tx_offset_def draws_zero_def
      randomChannel_def at_index_def main_settings_def getCHS_def getS_def getTSwitch_def
      getTScan_def DEFAULT_SLOT_DURATION_def DEFAULT_TX_OFFSET_def trunc_div_examples)
  apply (subst receive_EB.simps)
  apply (simp add: at_index_def main_settings_def main_pSR_def getCHS_def getS_def
      getTSwitch_def getTScan_def DEFAULT_SLOT_DURATION_def DEFAULT_TX_OFFSET_def map_at_def
      getPsr_def random_def getPeb_def trunc_div_examples)
  done

lemma attempt_at_zero:
  "sync_attempt main_settings draws_zero = Some (Inr (0, 2120000, draws_zero))"
  unfolding sync_attempt_def
  apply (simp add: randomScanStartTime_def draws_zero_def
      randomChannel_def at_index_def main_settings_def getCHS_def getS_def getTSwitch_def
      getTScan_def DEFAULT_SLOT_DURATION_def DEFAULT_TX_OFFSET_def trunc_div_examples)
  apply (subst receive_EB.simps)
  apply (simp add: at_index_def main_settings_def main_pSR_def getCHS_def getS_def
      getTSwitch_def getTScan_def DEFAULT_SLOT_DURATION_def DEFAULT_TX_OFFSET_def map_at_def
      getPsr_def random_def getPeb_def trunc_div_examples)
  done

lemma steps_of_example:
  "step_of main_settings 2120000 2120000 = 0" "step_of main_settings 0 2120000 = 1"
  by (simp_all add: step_of_def main_settings_def getS_def DEFAULT_SLOT_DURATION_def
      ceiling_eq_iff)

lemma run_of_example:
  "Simulator_run main_settings 2 fresh_Simulator_Results draws_at_tx_offset =
     Some (None, \<lparr>Simulator_avgSyncTime_f = 5316000, Simulator_cdf_f = [0, 1/2]\<rparr>)"
proof -
  have n: "nat 2 = Suc (Suc 0)"
    by simp
  have teb: "getTeb main_settings = 4256000"
    by (simp add: main_settings_def getTeb_def)
  have "attempts main_settings 2 (nat 2) (0, fmempty, draws_at_tx_offset) =
      Some (Inr (5316000, fmupd 1 1 (fmupd 0 1 fmempty), draws_zero))"
    unfolding n
    by (simp add: attempt_at_tx_offset attempt_at_zero steps_of_example count_step_def teb)
  then show ?thesis
    by (simp add: Simulator_run_def main_settings_def getCHS_def upt_rec numeral_2_eq_2
        fresh_Simulator_Results_def)
qed

theorem Simulator_run_numRuns_guard_witness:
  "Simulator_run main_settings 0 fresh_Simulator_Results draws_at_tx_offset =
     Some (Some (invalid_argument ''The parameter numRuns must be greater than 0''),
       fresh_Simulator_Results) \<and>
   Simulator_run main_settings (- 3) fresh_Simulator_Results draws_at_tx_offset =
     Some (Some (invalid_argument ''The parameter numRuns must be greater than 0''),
       fresh_Simulator_Results) \<and>
   \<not> (\<exists>e r. Simulator_run main_settings 2 fresh_Simulator_Results draws_at_tx_offset =
            Some (Some e, r) \<and> is_invalid_argument e)"
  using Simulator_run_numRuns_guard [of 0 main_settings fresh_Simulator_Results
      draws_at_tx_offset]
    Simulator_run_numRuns_guard [of "- 3" main_settings fresh_Simulator_Results
      draws_at_tx_offset]
    Simulator_run_numRuns_guard [of 2 main_settings fresh_Simulator_Results
      draws_at_tx_offset]
  by simp

text \<open>
  C3, the Monte Carlo estimator.  With the settings of \<open>main.cpp\<close> and two runs, a scan that
  starts exactly at the transmission instant of a minimal cell receives the EB after 0 ns:
  \<open>ceil\<close> of 0 is step 0, which the loop from \<open>i = 1\<close> never adds to \<open>sumCounters\<close>.  The
  second run ends in step 1.  The cdf that \<open>run\<close> stores is \<open>[0, 1/2]\<close>: its last value is 1/2,
  and \<open>cdf(1)\<close> is 1/2 although both runs have ended by step 1.
\<close>

theorem Simulator_run_loses_step_zero:
  "SyncParameters_ctor [11, 13, 14, 12] 101 (15/16) main_pSR 5250000000 0 4256000 =
     Inr main_settings \<and>
   sync_attempt main_settings draws_at_tx_offset =
     Some (Inr (2120000, 2120000, draws_zero)) \<and>
   step_of main_settings 2120000 2120000 = 0 \<and>
   sync_attempt main_settings draws_zero = Some (Inr (0, 2120000, draws_zero)) \<and>
   step_of main_settings 0 2120000 = 1 \<and>
   Simulator_run main_settings 2 fresh_Simulator_Results draws_at_tx_offset =
     Some (None, \<lparr>Simulator_avgSyncTime_f = 5316000, Simulator_cdf_f = [0, 1/2]\<rparr>) \<and>
   Simulator_Results_cdf
     \<lparr>Simulator_avgSyncTime_f = 5316000, Simulator_cdf_f = [0, 1/2]\<rparr> 1 = Inr (1/2) \<and>
   last [0, 1/2 :: real] < 1"
  by (simp add: main_settings_constructed attempt_at_tx_offset attempt_at_zero
      steps_of_example run_of_example Simulator_Results_cdf_def)

section \<open>Properties of Model::calculate\<close>

text \<open>
  C9.  Two parameter sets that differ only in \<open>tSwitch\<close> give the same outcome of
  \<open>Model::calculate\<close>: the same average time and the same cdf vector, hence the same
  \<open>avgSyncTime()\<close> and the same \<open>cdf(steps)\<close> at every step (and the same exception or the same
  non-termination when the call does not return).
\<close>

theorem calculate_independent_of_tSwitch:
  assumes "getCHS p1 = getCHS p2" "getS p1 = getS p2" "getPeb p1 = getPeb p2"
    "getPsr p1 = getPsr p2" "getTScan p1 = getTScan p2" "getTeb p1 = getTeb p2"
  shows "calculate p1 results = calculate p2 results \<and>
         (\<forall>r1 r2. calculate p1 results = Some (Inr r1) \<and>
                  calculate p2 results = Some (Inr r2) \<longrightarrow>
             Model_Results_avgSyncTime r1 = Model_Results_avgSyncTime r2 \<and>
             (\<forall>steps. Model_Results_cdf r1 steps = Model_Results_cdf r2 steps))"
proof -
  have eq: "calculate p1 results = calculate p2 results"
    unfolding calculate_def assms ..
  show ?thesis
    unfolding eq by auto
qed

theorem calculate_independent_of_tSwitch_witness:
  "calculate main_settings fresh_Model_Results =
     calculate (main_settings\<lparr>tSwitch_f := 250000000\<rparr>) fresh_Model_Results"
  using calculate_independent_of_tSwitch
    [of main_settings "main_settings\<lparr>tSwitch_f := 250000000\<rparr>" fresh_Model_Results]
  by (simp add: getCHS_def getS_def getPeb_def getPsr_def getTScan_def getTeb_def)

lemma smod_nonneg: "0 \<le> a \<Longrightarrow> 0 < b \<Longrightarrow> a smod b = a mod (b::int)"
  by (cases "a = 0") (simp_all add: signed_modulo_int_def)

lemma sdiv_nonneg: "0 \<le> a \<Longrightarrow> 0 < b \<Longrightarrow> a sdiv b = a div (b::int)"
  by (cases "a = 0") (simp_all add: signed_divide_int_def)

lemma for_loop_fold:
  "(\<And>i a. i \<in> set xs \<Longrightarrow> body i a = Inr (g i a)) \<Longrightarrow>
     for_loop xs body acc = Inr (fold g xs acc)"
  by (induction xs arbitrary: acc) simp_all

lemma upto_as_upt: "[int m..int n - 1] = map int [m..<n]"
proof (induction n)
  case 0
  then show ?case by simp
next
  case (Suc n)
  show ?case
  proof (cases "m \<le> n")
    case True
    then have "[int m..int (Suc n) - 1] = [int m..int n - 1] @ [int n]"
      by (simp add: upto_rec2)
    with Suc True show ?thesis by simp
  next
    case False
    then show ?thesis by simp
  qed
qed

lemma fold_snoc: "fold (\<lambda>i W. W @ [f i]) xs acc = acc @ map f xs"
  by (induction xs arbitrary: acc) simp_all

lemma fold_sum_upt:
  "fold (\<lambda>y s. s + f y) [m..<n] (a::real) = a + (\<Sum>y = m..<n. f y)"
proof (induction n)
  case 0
  then show ?case by simp
next
  case (Suc n)
  then show ?case
    by (cases "m \<le> n") (simp_all add: algebra_simps)
qed

lemma fold_prod_upt:
  "fold (\<lambda>i p. p * f i) [m..<n] (a::real) = a * (\<Prod>i = m..<n. f i)"
proof (induction n)
  case 0
  then show ?case by simp
next
  case (Suc n)
  then show ?case
    by (cases "m \<le> n") (simp_all add: algebra_simps)
qed

lemma for_loop_map: "for_loop (map h xs) body acc = for_loop xs (\<lambda>i. body (h i)) acc"
proof (induction xs arbitrary: acc)
  case Nil
  then show ?case by simp
next
  case (Cons a xs)
  have "for_loop (map h xs) body = for_loop xs (\<lambda>i. body (h i))"
    using Cons.IH by (rule ext)
  then show ?case by simp
qed

lemma validly_constructed_facts:
  assumes "validly_constructed P"
  shows "distinct (getCHS P)" "0 < getS P" "gcd (int (length (getCHS P))) (getS P) = 1"
    "0 \<le> getPeb P" "getPeb P \<le> 1"
    "\<forall>c \<in> set (getCHS P). \<exists>p. fmlookup (getPsr P) c = Some p \<and> 0 \<le> p \<and> p \<le> 1"
    "0 < getTScan P" "0 \<le> getTeb P"
proof -
  let ?ctor = "SyncParameters_ctor (getCHS P) (getS P) (getPeb P) (getPsr P) (getTScan P)
        (getTSwitch P) (getTeb P)"
  have c: "?ctor = Inr P"
    using assms by (simp add: validly_constructed_def)
  have u: "check_unique (getCHS P) = Inr ()"
    using c by (cases "check_unique (getCHS P)")
      (auto simp: SyncParameters_ctor_def bindR_def split: sum.splits)
  then show "distinct (getCHS P)"
    by (simp add: check_unique_cases split: if_splits)
  have r: "check_channel_range (getCHS P) = Inr ()"
    using c by (cases "check_channel_range (getCHS P)")
      (auto simp: SyncParameters_ctor_def bindR_def split: sum.splits)
  from c r u show s: "0 < getS P"
    by (auto simp: SyncParameters_ctor_def split: if_splits)
  from c r u s show g: "gcd (int (length (getCHS P))) (getS P) = 1"
    by (auto simp: SyncParameters_ctor_def split: if_splits)
  from c r u s g show pe: "0 \<le> getPeb P" "getPeb P \<le> 1"
    by (auto simp: SyncParameters_ctor_def split: if_splits)
  from c r u s g pe have k: "check_pSR (getPsr P) (getCHS P) = Inr ()"
    by (cases "check_pSR (getPsr P) (getCHS P)") (auto simp: SyncParameters_ctor_def)
  then show "\<forall>c \<in> set (getCHS P). \<exists>p. fmlookup (getPsr P) c = Some p \<and> 0 \<le> p \<and> p \<le> 1"
    by (simp add: check_pSR_ok)
  from c r u s g pe k show "0 < getTScan P" "0 \<le> getTeb P"
    by (auto simp: SyncParameters_ctor_def split: if_splits)
qed

lemma build_W_spec:
  assumes "0 < getS P" "getCHS P \<noteq> []"
  shows "build_W (getCHS P) (getS P) (int (length (getCHS P))) = Inr (W_list P)"
proof -
  let ?n = "length (getCHS P)"
  let ?f = "\<lambda>i::nat. getCHS P ! nat (((int i - 1) * getS P) mod int ?n)"
  have n: "0 < ?n" using assms(2) by simp
  have up: "[1..int ?n] = map int [1..<Suc ?n]"
    using upto_as_upt [of 1 "Suc ?n"] by simp
  have body: "bindR (at_index (getCHS P) (((int i - 1) * getS P) smod int ?n))
                (\<lambda>c. Inr (W @ [c])) = Inr (W @ [?f i])"
    if "i \<in> set [1..<Suc ?n]" for i W
  proof -
    from that have "0 \<le> int i - 1" by auto
    then have "0 \<le> (int i - 1) * getS P"
      using assms(1) by simp
    then have sm: "((int i - 1) * getS P) smod int ?n = ((int i - 1) * getS P) mod int ?n"
      using n by (simp add: smod_nonneg)
    have "0 \<le> ((int i - 1) * getS P) mod int ?n" "((int i - 1) * getS P) mod int ?n < int ?n"
      using n by simp_all
    then show ?thesis
      unfolding sm by (simp add: at_index_def)
  qed
  have "build_W (getCHS P) (getS P) (int ?n) = Inr (map ?f [1..<Suc ?n])"
    unfolding build_W_def up for_loop_map
    by (subst for_loop_fold [where g = "\<lambda>i W. W @ [?f i]"]) (use body in \<open>simp_all add: fold_snoc\<close>)
  also have "map ?f [1..<Suc ?n] = map (\<lambda>j. ?f (Suc j)) [0..<?n]"
  proof -
    have "[1..<Suc ?n] = map Suc [0..<?n]"
      using map_Suc_upt [of 0 ?n] by simp
    then show ?thesis
      by (simp only: map_map comp_def)
  qed
  also have "\<dots> = W_list P"
    by (simp add: W_list_def W_spec_def)
  finally show ?thesis .
qed

lemma X_spec_eq:
  assumes "getCHS P \<noteq> []" "1 \<le> k"
  shows "X (locals_of P) (int k) (int y) = Inr (X_spec P k y)"
proof -
  let ?n = "length (getCHS P)"
  have n: "0 < ?n" using assms(1) by simp
  have nn: "0 \<le> int y + int k - 1" using assms(2) by simp
  have idx: "(int y + int k - 1) smod int ?n = int ((y + k - 1) mod ?n)"
    using n nn assms(2) by (simp add: smod_nonneg zmod_int of_nat_diff)
  have "(y + k - 1) mod ?n < ?n" using n by simp
  then show ?thesis
    unfolding X_def X_spec_def locals_of_def
    by (simp add: idx at_index_def W_list_def del: of_nat_mod)
qed

lemma X_spec_in_chs:
  assumes "getCHS P \<noteq> []"
  shows "X_spec P k y \<in> set (getCHS P)"
proof -
  have "nat ((int j * getS P) mod int (length (getCHS P))) < length (getCHS P)" for j
    using assms by (simp add: nat_less_iff)
  then show ?thesis
    unfolding X_spec_def W_spec_def by simp
qed

lemma Pstep_spec_eq:
  assumes "validly_constructed P" "getCHS P \<noteq> []" "1 \<le> k"
  shows "Pstep (locals_of P) (int k) (int y) = Inr (Pstep_spec P k y)"
proof -
  obtain p where "fmlookup (getPsr P) (X_spec P k y) = Some p"
    using validly_constructed_facts(6) [OF assms(1)] X_spec_in_chs [OF assms(2)] by blast
  then have "map_at (getPsr P) (X_spec P k y) = Inr (prob_of (getPsr P) (X_spec P k y))"
    by (simp add: map_at_def prob_of_def)
  then show ?thesis
    unfolding Pstep_def X_spec_eq [OF assms(2,3)]
    by (simp add: locals_of_def Pstep_spec_def)
qed

lemma Psync_cond_1_spec:
  assumes "validly_constructed P" "getCHS P \<noteq> []" "1 \<le> k"
  shows "Psync_cond_1 (locals_of P) (int k) (int y) =
           Inr ((\<Prod>i = 1..<k. 1 - Pstep_spec P i y) * Pstep_spec P k y)"
proof -
  have up: "[1..int k - 1] = map int [1..<k]"
    using upto_as_upt [of 1 k] by simp
  have body: "bindR (Pstep (locals_of P) (int i) (int y)) (\<lambda>p. Inr (a * (1 - p))) =
      Inr (a * (1 - Pstep_spec P i y))" if "i \<in> set [1..<k]" for i a
    using that Pstep_spec_eq [OF assms(1,2), of i y] by simp
  have "for_loop [1..int k - 1]
          (\<lambda>i prod. bindR (Pstep (locals_of P) i (int y)) (\<lambda>p. Inr (prod * (1 - p)))) 1 =
        Inr (\<Prod>i = 1..<k. 1 - Pstep_spec P i y)"
    unfolding up for_loop_map
    by (subst for_loop_fold [where g = "\<lambda>i a. a * (1 - Pstep_spec P i y)"])
      (use body in \<open>simp_all add: fold_prod_upt\<close>)
  then show ?thesis
    unfolding Psync_cond_1_def by (simp add: Pstep_spec_eq [OF assms])
qed

lemma Psync_1_spec:
  assumes "validly_constructed P" "getCHS P \<noteq> []" "1 \<le> k"
  shows "Psync_of (locals_of P) (Psync_cond_1 (locals_of P)) (int k) = Inr (Psync_spec_1 P k)"
proof -
  let ?n = "length (getCHS P)"
  have C: "loc_C (locals_of P) = int ?n"
    by (simp add: locals_of_def)
  have up: "[0..int ?n - 1] = map int [0..<?n]"
    using upto_as_upt [of 0 ?n] by simp
  let ?t = "\<lambda>y. 1 / real ?n * ((\<Prod>i = 1..<k. 1 - Pstep_spec P i y) * Pstep_spec P k y)"
  have body: "bindR (Psync_cond_1 (locals_of P) (int k) (int y))
                (\<lambda>p. Inr (a + 1 / real_of_int (int ?n) * p)) = Inr (a + ?t y)" for y a
    by (simp add: Psync_cond_1_spec [OF assms])
  show ?thesis
    unfolding Psync_of_def C up for_loop_map
    by (subst for_loop_fold [where g = "\<lambda>y a. a + ?t y"])
      (use body in \<open>simp_all add: fold_sum_upt Psync_spec_1_def\<close>)
qed

lemma cumulative_0 [simp]: "cumulative f 0 = 0"
  by (simp add: cumulative_def)

lemma cumulative_Suc: "cumulative f (Suc k) = cumulative f k + f (Suc k)"
  by (simp add: cumulative_def)

lemma expected_time_0 [simp]: "expected_time f Tsf Teb 0 = 0"
  by (simp add: expected_time_def)

lemma expected_time_Suc:
  "expected_time f Tsf Teb (Suc k) =
     expected_time f Tsf Teb k +
       f (Suc k) * (real k * real_of_int Tsf + real_of_int Tsf / 2 + real_of_int Teb)"
  by (simp add: expected_time_def)

lemma sum_while_reaches:
  assumes Ps: "\<And>k. 1 \<le> k \<Longrightarrow> Psync (int k) = Inr (f k)"
    and below: "\<And>j. j < K \<Longrightarrow> cumulative f j < 1 - 1 / 10 ^ 9"
    and reach: "1 - 1 / 10 ^ 9 \<le> cumulative f K"
    and k: "k \<le> K"
  shows "sum_while Psync Tsf Teb (Suc k) (cumulative f k) (expected_time f Tsf Teb k) =
           Some (Inr (expected_time f Tsf Teb K, Suc K))"
  using k
proof (induction "K - k" arbitrary: k)
  case 0
  then have "k = K" by simp
  with reach show ?case
    by (subst sum_while.simps) simp
next
  case (Suc d)
  then have lt: "k < K" and d: "d = K - Suc k" and le: "Suc k \<le> K"
    by simp_all
  have step: "sum_while Psync Tsf Teb (Suc k) (cumulative f k) (expected_time f Tsf Teb k) =
      sum_while Psync Tsf Teb (Suc (Suc k)) (cumulative f (Suc k))
        (expected_time f Tsf Teb (Suc k))"
    using below [OF lt] Ps [of "Suc k"]
    by (subst sum_while.simps) (simp add: cumulative_Suc expected_time_Suc)
  show ?case
    unfolding step using Suc.hyps(1) [OF d le] .
qed

lemma sum_while_diverges:
  assumes Ps: "\<And>k. 1 \<le> k \<Longrightarrow> Psync (int k) = Inr (f k)"
    and below: "\<And>j. cumulative f j < 1 - 1 / 10 ^ 9"
  shows "sum_while Psync Tsf Teb 1 0 0 = None"
proof (rule ccontr)
  assume "sum_while Psync Tsf Teb 1 0 0 \<noteq> None"
  then obtain r where r: "sum_while Psync Tsf Teb 1 0 0 = Some r"
    by blast
  have "\<not> (Ps' = Psync \<and> 1 \<le> k \<and> c = cumulative f (k - 1))"
    if "sum_while Ps' Tsf' Teb' k c s = Some r'" for Ps' Tsf' Teb' k c s r'
    using that
  proof (rule sum_while.raw_induct
      [where P = "\<lambda>Ps' Tsf' Teb' k c s r'. \<not> (Ps' = Psync \<and> 1 \<le> k \<and> c = cumulative f (k - 1))",
        rotated], goal_cases)
    case (1 sw Ps' Tsf' Teb' k c s r')
    show ?case
    proof
      assume a: "Ps' = Psync \<and> 1 \<le> k \<and> c = cumulative f (k - 1)"
      then have c: "c < 1 - 1 / 10 ^ 9"
        using below by simp
      from a have fk: "Ps' (int k) = Inr (f k)"
        using Ps by simp
      from 1(2) c fk have "sw Ps' Tsf' Teb' (k + 1) (c + f k)
          (s + f k * (real (k - 1) * real_of_int Tsf' + real_of_int Tsf' / 2
                              + real_of_int Teb')) = Some r'"
        by simp
      from 1(1) [OF this] a show False
        using cumulative_Suc [of f "k - 1"] by simp
    qed
  qed
  from this [OF r] show False
    by simp
qed

lemma cdf_loop_spec:
  assumes Ps: "\<And>k. 1 \<le> k \<Longrightarrow> Psync (int k) = Inr (f k)"
    and m: "1 \<le> m" "m \<le> Suc K"
  shows "cdf_loop Psync [m..<Suc K] (map (cumulative f) [0..<m]) =
           Inr (map (cumulative f) [0..<Suc K])"
  using m
proof (induction "Suc K - m" arbitrary: m)
  case 0
  then have "m = Suc K" by simp
  then show ?case by simp
next
  case (Suc d)
  then have lt: "m < Suc K" and d: "d = Suc K - Suc m" and le: "Suc m \<le> Suc K"
    by simp_all
  obtain m' where m': "m = Suc m'"
    using Suc.prems(1) by (cases m) simp_all
  have upt: "[m..<Suc K] = m # [Suc m..<Suc K]"
    using lt by (simp add: upt_conv_Cons)
  have prev: "at_index (map (cumulative f) [0..<m]) (int m - 1) = Inr (cumulative f m')"
    unfolding m' by (simp add: at_index_def del: upt_Suc)
  have app: "map (cumulative f) [0..<m] @ [cumulative f m' + f m] =
      map (cumulative f) [0..<Suc m]"
    unfolding m' using cumulative_Suc [of f m'] by simp
  have "cdf_loop Psync [m..<Suc K] (map (cumulative f) [0..<m]) =
      cdf_loop Psync [Suc m..<Suc K] (map (cumulative f) [0..<Suc m])"
    unfolding upt cdf_loop.simps prev bindR_Inr Ps [OF Suc.prems(1)] app ..
  then show ?case
    using Suc.hyps(1) [OF d _ le] by simp
qed

lemma Psync_spec_1_no_channel: "getCHS P = [] \<Longrightarrow> Psync_spec_1 P k = 0"
  by (simp add: Psync_spec_1_def)

lemma truncation_step_positive:
  assumes "truncation_step f K"
  shows "1 \<le> K"
proof (rule ccontr)
  assume "\<not> 1 \<le> K"
  then have "K = 0" by simp
  with assms show False
    by (simp add: truncation_step_def)
qed

lemma calculate_case_1_value:
  assumes v: "validly_constructed P"
    and c1: "getTScan P < Tsf_of P"
    and K: "truncation_step (Psync_spec_1 P) K"
  shows "calculate P fresh_Model_Results =
           Some (Inr \<lparr>Model_avgSyncTime_f =
                        expected_time (Psync_spec_1 P) (Tsf_of P) (getTeb P) K,
                      Model_cdf_f = map (cumulative (Psync_spec_1 P)) [0..<K + 1]\<rparr>)"
proof -
  let ?f = "Psync_spec_1 P"
  let ?L = "locals_of P"
  have K1: "1 \<le> K"
    using K by (rule truncation_step_positive)
  have ne: "getCHS P \<noteq> []"
  proof
    assume "getCHS P = []"
    then have "cumulative ?f K = 0"
      by (simp add: cumulative_def Psync_spec_1_no_channel)
    with K show False
      by (simp add: truncation_step_def)
  qed
  have W: "build_W (getCHS P) (getS P) (int (length (getCHS P))) = Inr (W_list P)"
    using validly_constructed_facts(2) [OF v] ne by (rule build_W_spec)
  have Ps: "Psync_of ?L (Psync_cond_1 ?L) (int k) = Inr (?f k)" if "1 \<le> k" for k
    using v ne that by (rule Psync_1_spec)
  have sw: "sum_while (Psync_of ?L (Psync_cond_1 ?L)) (Tsf_of P) (getTeb P) (Suc 0)
              (cumulative ?f 0) (expected_time ?f (Tsf_of P) (getTeb P) 0) =
            Some (Inr (expected_time ?f (Tsf_of P) (getTeb P) K, Suc K))"
    using K by (intro sum_while_reaches Ps) (simp_all add: truncation_step_def)
  have c1v: "case_1 ?L =
      Some (Inr (expected_time ?f (Tsf_of P) (getTeb P) K, K, Psync_of ?L (Psync_cond_1 ?L)))"
    using sw by (simp add: case_1_def sumOfExpectedValueInCases1and2_def locals_of_def)
  have cdf: "cdf_loop (Psync_of ?L (Psync_cond_1 ?L)) (1 # [2..<K + 1]) ([] @ [0]) =
      Inr (map (cumulative ?f) [0..<K + 1])"
  proof -
    have "1 # [2..<K + 1] = [1..<Suc K]"
      using K1 by (simp add: upt_conv_Cons numeral_2_eq_2)
    moreover have "[] @ [0] = map (cumulative ?f) [0..<1]"
      by simp
    ultimately show ?thesis
      using cdf_loop_spec [of "Psync_of ?L (Psync_cond_1 ?L)" ?f 1 K] Ps K1
      by (simp del: upt_Suc)
  qed
  have L: "\<lparr>loc_Peb = getPeb P, loc_C = int (length (getCHS P)), loc_Psr = getPsr P,
            loc_Tscan = getTScan P, loc_Tsf = DEFAULT_SLOT_DURATION * getS P,
            loc_Teb = getTeb P, loc_W = W_list P\<rparr> = ?L"
    by (simp add: locals_of_def Tsf_of_def)
  show ?thesis
    unfolding calculate_def Let_def W sum.case L
    using c1 c1v cdf
    by (simp add: Tsf_of_def fresh_Model_Results_def del: upt_Suc)
qed

lemma one_channel_valid: "validly_constructed one_channel_settings"
  by (simp add: validly_constructed_def one_channel_settings_def one_channel_pSR_def
      SyncParameters_ctor_def getCHS_def getS_def getPeb_def getPsr_def getTScan_def
      getTSwitch_def getTeb_def fcard_finsert_if)

lemma one_channel_Pstep: "Pstep_spec one_channel_settings k y = 999/1000"
  by (simp add: Pstep_spec_def X_spec_def W_spec_def one_channel_settings_def
      one_channel_pSR_def getCHS_def getS_def getPeb_def getPsr_def prob_of_def)

lemma one_channel_Psync:
  "Psync_spec_1 one_channel_settings k = (1/1000) ^ (k - 1) * (999/1000)"
  by (simp add: Psync_spec_1_def one_channel_Pstep)
    (simp add: one_channel_settings_def getCHS_def)

lemma one_channel_Psync_values:
  "Psync_spec_1 one_channel_settings (Suc 0) = 999/1000"
  "Psync_spec_1 one_channel_settings (Suc (Suc 0)) = 999/1000000"
  "Psync_spec_1 one_channel_settings (Suc (Suc (Suc 0))) = 999/1000000000"
  by (simp_all add: one_channel_Psync)

lemma one_channel_cumulative:
  "cumulative (Psync_spec_1 one_channel_settings) (Suc 0) = 999/1000"
  "cumulative (Psync_spec_1 one_channel_settings) (Suc (Suc 0)) = 999999/1000000"
  "cumulative (Psync_spec_1 one_channel_settings) (Suc (Suc (Suc 0))) = 999999999/1000000000"
  by (simp_all add: cumulative_Suc one_channel_Psync_values)

lemma three: "(3::nat) = Suc (Suc (Suc 0))"
  by simp

lemma one_channel_truncation: "truncation_step (Psync_spec_1 one_channel_settings) 3"
  unfolding three truncation_step_def
  by (simp add: lessThan_Suc one_channel_cumulative)

lemma one_channel_expected:
  "expected_time (Psync_spec_1 one_channel_settings) (Tsf_of one_channel_settings)
     (getTeb one_channel_settings) 3 = 1158251246343 / 125000"
proof -
  have t: "Tsf_of one_channel_settings = 10000000" "getTeb one_channel_settings = 4256000"
    by (simp_all add: Tsf_of_def one_channel_settings_def getS_def getTeb_def
        DEFAULT_SLOT_DURATION_def)
  show ?thesis
    unfolding three t by (simp add: expected_time_Suc one_channel_Psync_values)
qed

lemma one_channel_cdf:
  "map (cumulative (Psync_spec_1 one_channel_settings)) [0..<3 + 1] =
     [0, 999/1000, 999999/1000000, 999999999/1000000000]"
proof -
  have "[0..<3 + 1] = [0, Suc 0, Suc (Suc 0), Suc (Suc (Suc 0))]"
    by (simp add: upt_rec)
  then show ?thesis
    by (simp add: one_channel_cumulative)
qed



lemma periods_positive:
  assumes "validly_constructed P" "\<not> getTScan P < Tsf_of P"
  shows "1 \<le> periods P" "loc_Tscan (locals_of P) sdiv loc_Tsf (locals_of P) = int (periods P)"
proof -
  have T: "0 < Tsf_of P"
    using validly_constructed_facts(2) [OF assms(1)]
    by (simp add: Tsf_of_def DEFAULT_SLOT_DURATION_def)
  have S: "0 < getTScan P"
    using validly_constructed_facts(7) [OF assms(1)] .
  have "1 \<le> getTScan P div Tsf_of P"
    using T assms(2) pos_imp_zdiv_pos_iff [of "Tsf_of P" "getTScan P"] by linarith
  then show "1 \<le> periods P"
    by (simp add: periods_def)
  have "0 \<le> getTScan P div Tsf_of P"
    using T S by (simp add: pos_imp_zdiv_nonneg_iff)
  then show "loc_Tscan (locals_of P) sdiv loc_Tsf (locals_of P) = int (periods P)"
    using T S by (simp add: locals_of_def sdiv_nonneg periods_def)
qed

lemma Pstep_sp_spec_eq:
  assumes "validly_constructed P" "getCHS P \<noteq> []" "1 \<le> k" "1 \<le> periods P"
  shows "Pstep_sp (locals_of P) (int (periods P)) (int k) (int y) = Inr (Pstep_sp_spec P k y)"
proof -
  let ?n = "periods P"
  let ?C = "length (getCHS P)"
  have C: "0 < ?C" using assms(2) by simp
  have kf: "((int k - 1) sdiv int ?n) * int ?n + 1 = int (first_step ?n k)"
    using assms(3,4) by (simp add: sdiv_nonneg first_step_def zdiv_int of_nat_diff)
  have le: "first_step ?n k \<le> k"
  proof -
    have "((k - 1) div ?n) * ?n \<le> k - 1" by simp
    then show ?thesis using assms(3) unfolding first_step_def by linarith
  qed
  have N: "(int k - int (first_step ?n k)) sdiv int ?C = int (Nchp_spec P k)"
    using le C by (simp add: sdiv_nonneg Nchp_spec_def zdiv_int of_nat_diff)
  obtain p where "fmlookup (getPsr P) (X_spec P k y) = Some p"
    using validly_constructed_facts(6) [OF assms(1)] X_spec_in_chs [OF assms(2)] by blast
  then have at: "map_at (getPsr P) (X_spec P k y) = Inr (prob_of (getPsr P) (X_spec P k y))"
    by (simp add: map_at_def prob_of_def)
  have L: "loc_C (locals_of P) = int ?C" "loc_Psr (locals_of P) = getPsr P"
    "loc_Peb (locals_of P) = getPeb P"
    by (simp_all add: locals_of_def)
  show ?thesis
    unfolding Pstep_sp_def Let_def kf L N X_spec_eq [OF assms(2,3)]
      Pstep_spec_eq [OF assms(1,2,3)]
    by (simp add: Pstep_sp_spec_def at)
qed

lemma Qsp_spec_eq:
  assumes "validly_constructed P" "getCHS P \<noteq> []" "1 \<le> i" "1 \<le> periods P"
  shows "Qsp (locals_of P) (int (periods P)) (int i) (int y) = Inr (Qsp_spec P i y)"
proof -
  let ?n = "periods P"
  let ?lo = "(i - 1) * ?n + 1"
  let ?hi = "i * ?n + 1"
  have e1: "(int i - 1) * int ?n + 1 = int ?lo"
    using assms(3) by (simp add: of_nat_diff)
  have e2: "int i * int ?n = int ?hi - 1"
    by simp
  have up: "[(int i - 1) * int ?n + 1..int i * int ?n] = map int [?lo..<?hi]"
    unfolding e1 e2 by (rule upto_as_upt)
  have body: "bindR (Pstep_sp (locals_of P) (int ?n) (int k) (int y)) (\<lambda>p. Inr (a + p)) =
      Inr (a + Pstep_sp_spec P k y)" if "k \<in> set [?lo..<?hi]" for k a
  proof -
    from that have "?lo \<le> k" by (simp del: upt_Suc)
    then have "1 \<le> k" by linarith
    then show ?thesis
      using Pstep_sp_spec_eq [OF assms(1,2) _ assms(4), of k y] by simp
  qed
  have "for_loop [(int i - 1) * int ?n + 1..int i * int ?n]
          (\<lambda>k sum_v. bindR (Pstep_sp (locals_of P) (int ?n) k (int y))
             (\<lambda>p. Inr (sum_v + p))) 0 =
        Inr (\<Sum>k = ?lo..<?hi. Pstep_sp_spec P k y)"
    unfolding up for_loop_map
    by (subst for_loop_fold [where g = "\<lambda>k a. a + Pstep_sp_spec P k y"])
      (use body in \<open>simp_all add: fold_sum_upt\<close>)
  then show ?thesis
    unfolding Qsp_def by (simp add: Qsp_spec_def)
qed

lemma Psync_cond_2_spec:
  assumes "validly_constructed P" "getCHS P \<noteq> []" "1 \<le> k" "1 \<le> periods P"
  shows "Psync_cond_2 (locals_of P) (int (periods P)) (int k) (int y) =
           Inr ((\<Prod>i = 1..<(k - 1) div periods P + 1. Qsp_spec P i y) * Pstep_sp_spec P k y)"
proof -
  let ?n = "periods P"
  let ?m = "(k - 1) div ?n + 1"
  have hi: "(int k - 1) sdiv int ?n = int ?m - 1"
    using assms(3,4) by (simp add: sdiv_nonneg zdiv_int of_nat_diff)
  have up: "[1..int ?m - 1] = map int [1..<?m]"
    using upto_as_upt [of 1 ?m] by simp
  have body: "bindR (Qsp (locals_of P) (int ?n) (int i) (int y)) (\<lambda>q. Inr (a * q)) =
      Inr (a * Qsp_spec P i y)" if "i \<in> set [1..<?m]" for i a
  proof -
    from that have "1 \<le> i" by auto
    then show ?thesis
      using Qsp_spec_eq [OF assms(1,2) _ assms(4), of i y] by simp
  qed
  have "for_loop [1..(int k - 1) sdiv int ?n]
          (\<lambda>i prod. bindR (Qsp (locals_of P) (int ?n) i (int y)) (\<lambda>q. Inr (prod * q))) 1 =
        Inr (\<Prod>i = 1..<?m. Qsp_spec P i y)"
    unfolding hi up for_loop_map
    by (subst for_loop_fold [where g = "\<lambda>i a. a * Qsp_spec P i y"])
      (use body in \<open>simp_all add: fold_prod_upt\<close>)
  then show ?thesis
    unfolding Psync_cond_2_def by (simp add: Pstep_sp_spec_eq [OF assms])
qed

lemma Psync_2_spec:
  assumes "validly_constructed P" "getCHS P \<noteq> []" "1 \<le> k" "1 \<le> periods P"
  shows "Psync_of (locals_of P) (Psync_cond_2 (locals_of P) (int (periods P))) (int k) =
           Inr (Psync_spec_2 P k)"
proof -
  let ?n = "length (getCHS P)"
  have C: "loc_C (locals_of P) = int ?n"
    by (simp add: locals_of_def)
  have up: "[0..int ?n - 1] = map int [0..<?n]"
    using upto_as_upt [of 0 ?n] by simp
  let ?t = "\<lambda>y. 1 / real ?n *
     ((\<Prod>i = 1..<(k - 1) div periods P + 1. Qsp_spec P i y) * Pstep_sp_spec P k y)"
  have body: "bindR (Psync_cond_2 (locals_of P) (int (periods P)) (int k) (int y))
                (\<lambda>p. Inr (a + 1 / real_of_int (int ?n) * p)) = Inr (a + ?t y)" for y a
    by (simp add: Psync_cond_2_spec [OF assms])
  show ?thesis
    unfolding Psync_of_def C up for_loop_map
    by (subst for_loop_fold [where g = "\<lambda>y a. a + ?t y"])
      (use body in \<open>simp_all add: fold_sum_upt Psync_spec_2_def\<close>)
qed

lemma W_spec_inj:
  assumes v: "validly_constructed P" and j: "j1 < length (getCHS P)" "j2 < length (getCHS P)"
    and eq: "W_spec P j1 = W_spec P j2"
  shows "j1 = j2"
proof -
  let ?C = "int (length (getCHS P))"
  let ?S = "getS P"
  have "0 < length (getCHS P)" using j(1) by linarith
  then have C: "0 < ?C" by simp
  have r1: "nat ((int j1 * ?S) mod ?C) < length (getCHS P)"
    and r2: "nat ((int j2 * ?S) mod ?C) < length (getCHS P)"
    using C by (simp_all add: nat_less_iff)
  from eq have "nat ((int j1 * ?S) mod ?C) = nat ((int j2 * ?S) mod ?C)"
    unfolding W_spec_def
    using validly_constructed_facts(1) [OF v] r1 r2 by (simp add: nth_eq_iff_index_eq)
  then have "(int j1 * ?S) mod ?C = (int j2 * ?S) mod ?C"
    using C by (simp add: nat_eq_iff)
  then have "?C dvd int j1 * ?S - int j2 * ?S"
    by (simp add: mod_eq_dvd_iff)
  then have "?C dvd (int j1 - int j2) * ?S"
    by (simp add: algebra_simps)
  moreover have "coprime ?C ?S"
    using validly_constructed_facts(3) [OF v] by (simp add: coprime_iff_gcd_eq_1)
  ultimately have d: "?C dvd int j1 - int j2"
    by (simp add: coprime_dvd_mult_left_iff)
  have "\<bar>int j1 - int j2\<bar> < ?C"
    using j by linarith
  with d have "int j1 - int j2 = 0"
    using zdvd_not_zless [of "\<bar>int j1 - int j2\<bar>" ?C] by (cases "int j1 - int j2 = 0") auto
  then show ?thesis by simp
qed

lemma X_spec_eq_iff:
  assumes v: "validly_constructed P" and ne: "getCHS P \<noteq> []"
  shows "X_spec P k' y = X_spec P k y \<longleftrightarrow>
           (y + k' - 1) mod length (getCHS P) = (y + k - 1) mod length (getCHS P)"
proof
  assume "X_spec P k' y = X_spec P k y"
  then show "(y + k' - 1) mod length (getCHS P) = (y + k - 1) mod length (getCHS P)"
    unfolding X_spec_def using W_spec_inj [OF v] ne by simp
next
  assume "(y + k' - 1) mod length (getCHS P) = (y + k - 1) mod length (getCHS P)"
  then show "X_spec P k' y = X_spec P k y"
    by (simp add: X_spec_def)
qed

lemma card_congruent_below:
  fixes C :: nat
  assumes C: "0 < C" and lo: "1 \<le> lo" "lo \<le> k"
  shows "card {k' \<in> {lo..<k}. (a + k' - 1) mod C = (a + k - 1) mod C} = (k - lo) div C"
proof -
  let ?S = "{k' \<in> {lo..<k}. (a + k' - 1) mod C = (a + k - 1) mod C}"
  let ?g = "\<lambda>m. k - C * (m + 1)"
  let ?D = "{0..<(k - lo) div C}"
  have bound: "C * (m + 1) \<le> k - lo" if "m \<in> ?D" for m
  proof -
    from that have "m + 1 \<le> (k - lo) div C" by simp
    then have "C * (m + 1) \<le> C * ((k - lo) div C)" by (rule mult_le_mono2)
    also have "\<dots> \<le> k - lo" by simp
    finally show ?thesis .
  qed
  have inj: "inj_on ?g ?D"
  proof (rule inj_onI)
    fix m1 m2 assume m: "m1 \<in> ?D" "m2 \<in> ?D" and e: "?g m1 = ?g m2"
    from bound [OF m(1)] bound [OF m(2)] lo e have "C * (m1 + 1) = C * (m2 + 1)"
      by linarith
    with C show "m1 = m2" by simp
  qed
  have "?S = ?g ` ?D"
  proof (rule set_eqI, rule iffI)
    fix k' assume "k' \<in> ?S"
    then have k': "lo \<le> k'" "k' < k" and cong: "(a + k' - 1) mod C = (a + k - 1) mod C"
      by simp_all
    from k' lo have le': "a + k' - 1 \<le> a + k - 1" by linarith
    from cong le' have "C dvd (a + k - 1) - (a + k' - 1)"
      by (metis mod_eq_dvd_iff_nat)
    then obtain t where t: "(a + k - 1) - (a + k' - 1) = C * t"
      by (rule dvdE)
    from t k' lo have kt: "k - k' = C * t" by linarith
    with k'(2) have t0: "t \<noteq> 0"
      by (cases t) simp_all
    from kt k' have le: "C * t \<le> k - lo" by linarith
    then have "t \<le> (k - lo) div C"
      using C by (simp add: less_eq_div_iff_mult_less_eq mult.commute)
    with t0 have "t - 1 \<in> ?D" by simp
    moreover have "?g (t - 1) = k'"
      using kt t0 k' by simp
    ultimately show "k' \<in> ?g ` ?D" by blast
  next
    fix k' assume "k' \<in> ?g ` ?D"
    then obtain m where m: "m \<in> ?D" and k': "k' = ?g m" by blast
    from bound [OF m] lo have b: "C * (m + 1) \<le> k" "lo \<le> k - C * (m + 1)"
      by linarith+
    have "k' < k" using k' b C by simp
    moreover have "(a + k' - 1) mod C = (a + k - 1) mod C"
    proof -
      have "a + k - 1 = (a + k' - 1) + C * (m + 1)" using k' b lo by linarith
      then show ?thesis by (metis mod_mult_self2)
    qed
    ultimately show "k' \<in> ?S" using b k' by simp
  qed
  then have "card ?S = card (?g ` ?D)" by simp
  also have "\<dots> = card ?D" using inj by (rule card_image)
  finally show ?thesis by simp
qed

lemma first_step_le:
  assumes "1 \<le> k"
  shows "1 \<le> first_step n k" "first_step n k \<le> k"
proof -
  show "1 \<le> first_step n k" by (simp add: first_step_def)
  have "((k - 1) div n) * n \<le> k - 1" by simp
  then show "first_step n k \<le> k" using assms unfolding first_step_def by linarith
qed

lemma Nchp_counts_visits:
  assumes v: "validly_constructed P" and ne: "getCHS P \<noteq> []" and k: "1 \<le> k"
  shows "Nchp_spec P k = visits_before P k y"
proof -
  let ?C = "length (getCHS P)"
  let ?lo = "first_step (periods P) k"
  have C: "0 < ?C" using ne by simp
  have "{k' \<in> {?lo..<k}. X_spec P k' y = X_spec P k y} =
        {k' \<in> {?lo..<k}. (y + k' - 1) mod ?C = (y + k - 1) mod ?C}"
    using X_spec_eq_iff [OF v ne] by blast
  then show ?thesis
    unfolding visits_before_def Nchp_spec_def
    using card_congruent_below [OF C first_step_le [OF k, of "periods P"]] by simp
qed

lemma Psync_spec_2_no_channel: "getCHS P = [] \<Longrightarrow> Psync_spec_2 P k = 0"
  by (simp add: Psync_spec_2_def)

lemma calculate_case_2_value:
  assumes v: "validly_constructed P"
    and c2: "\<not> getTScan P < Tsf_of P" "getTScan P mod Tsf_of P = 0"
    and K: "truncation_step (Psync_spec_2 P) K"
  shows "calculate P fresh_Model_Results =
           Some (Inr \<lparr>Model_avgSyncTime_f =
                        expected_time (Psync_spec_2 P) (Tsf_of P) (getTeb P) K,
                      Model_cdf_f = map (cumulative (Psync_spec_2 P)) [0..<K + 1]\<rparr>)"
proof -
  let ?f = "Psync_spec_2 P"
  let ?L = "locals_of P"
  let ?Ps = "Psync_of ?L (Psync_cond_2 ?L (int (periods P)))"
  have K1: "1 \<le> K"
    using K by (rule truncation_step_positive)
  have ne: "getCHS P \<noteq> []"
  proof
    assume "getCHS P = []"
    then have "cumulative ?f K = 0"
      by (simp add: cumulative_def Psync_spec_2_no_channel)
    with K show False
      by (simp add: truncation_step_def)
  qed
  note n = periods_positive [OF v c2(1)]
  have W: "build_W (getCHS P) (getS P) (int (length (getCHS P))) = Inr (W_list P)"
    using validly_constructed_facts(2) [OF v] ne by (rule build_W_spec)
  have Ps: "?Ps (int k) = Inr (?f k)" if "1 \<le> k" for k
    using v ne that n(1) by (rule Psync_2_spec)
  have sw: "sum_while ?Ps (Tsf_of P) (getTeb P) (Suc 0)
              (cumulative ?f 0) (expected_time ?f (Tsf_of P) (getTeb P) 0) =
            Some (Inr (expected_time ?f (Tsf_of P) (getTeb P) K, Suc K))"
    using K by (intro sum_while_reaches Ps) (simp_all add: truncation_step_def)
  have Tsf: "loc_Tsf ?L = Tsf_of P" "loc_Teb ?L = getTeb P"
    by (simp_all add: locals_of_def)
  have c2v: "case_2 ?L = Some (Inr (expected_time ?f (Tsf_of P) (getTeb P) K, K, ?Ps))"
    unfolding case_2_def Let_def n(2) sumOfExpectedValueInCases1and2_def
    using sw by (simp add: Tsf)
  have cdf: "cdf_loop ?Ps (1 # [2..<K + 1]) ([] @ [0]) =
      Inr (map (cumulative ?f) [0..<K + 1])"
  proof -
    have "1 # [2..<K + 1] = [1..<Suc K]"
      using K1 by (simp add: upt_conv_Cons numeral_2_eq_2)
    moreover have "[] @ [0] = map (cumulative ?f) [0..<1]"
      by simp
    ultimately show ?thesis
      using cdf_loop_spec [of ?Ps ?f 1 K] Ps K1
      by (simp del: upt_Suc)
  qed
  have L: "\<lparr>loc_Peb = getPeb P, loc_C = int (length (getCHS P)), loc_Psr = getPsr P,
            loc_Tscan = getTScan P, loc_Tsf = DEFAULT_SLOT_DURATION * getS P,
            loc_Teb = getTeb P, loc_W = W_list P\<rparr> = ?L"
    by (simp add: locals_of_def Tsf_of_def)
  have T: "0 < Tsf_of P"
    using validly_constructed_facts(2) [OF v]
    by (simp add: Tsf_of_def DEFAULT_SLOT_DURATION_def)
  have sm: "getTScan P smod (DEFAULT_SLOT_DURATION * getS P) = 0"
    using c2(2) T validly_constructed_facts(7) [OF v]
    by (simp add: smod_nonneg Tsf_of_def)
  show ?thesis
    unfolding calculate_def Let_def W sum.case L
    using c2(1) sm c2v cdf
    by (simp add: Tsf_of_def fresh_Model_Results_def del: upt_Suc)
qed

lemma aligned_valid: "validly_constructed aligned_settings"
  by (simp add: validly_constructed_def aligned_settings_def certain_pSR_def
      SyncParameters_ctor_def getCHS_def getS_def getPeb_def getPsr_def getTScan_def
      getTSwitch_def getTeb_def fcard_finsert_if gcd_4_101)

lemma aligned_facts:
  "getCHS aligned_settings \<noteq> []" "length (getCHS aligned_settings) = 4"
  "Tsf_of aligned_settings = 1010000000" "getTeb aligned_settings = 4256000"
  "getTScan aligned_settings = 4040000000" "periods aligned_settings = 4"
  "getPeb aligned_settings = 1"
  by (simp_all add: aligned_settings_def getCHS_def getS_def getTeb_def getTScan_def
      getPeb_def Tsf_of_def periods_def DEFAULT_SLOT_DURATION_def)

lemma aligned_prob: "prob_of (getPsr aligned_settings) (X_spec aligned_settings k y) = 1"
proof -
  have "X_spec aligned_settings k y \<in> set (getCHS aligned_settings)"
    using aligned_facts(1) by (rule X_spec_in_chs)
  then show ?thesis
    by (auto simp: aligned_settings_def getCHS_def getPsr_def certain_pSR_def prob_of_def)
qed

lemma aligned_Pstep_sp:
  assumes "k \<le> 4"
  shows "Pstep_sp_spec aligned_settings k y = 1/4"
proof -
  have "(k - 1) div 4 = 0" using assms by simp
  then have "Nchp_spec aligned_settings k = 0"
    by (simp add: Nchp_spec_def first_step_def aligned_facts)
  then show ?thesis
    by (simp add: Pstep_sp_spec_def Pstep_spec_def aligned_prob aligned_facts)
qed

lemma aligned_Psync:
  assumes "k \<le> 4"
  shows "Psync_spec_2 aligned_settings k = 1/4"
proof -
  have "(k - 1) div 4 = 0" using assms by simp
  then show ?thesis
    by (simp add: Psync_spec_2_def aligned_facts aligned_Pstep_sp [OF assms])
qed

lemma four: "(4::nat) = Suc (Suc (Suc (Suc 0)))"
  by simp

lemma aligned_cumulative:
  "cumulative (Psync_spec_2 aligned_settings) (Suc 0) = 1/4"
  "cumulative (Psync_spec_2 aligned_settings) (Suc (Suc 0)) = 1/2"
  "cumulative (Psync_spec_2 aligned_settings) (Suc (Suc (Suc 0))) = 3/4"
  "cumulative (Psync_spec_2 aligned_settings) (Suc (Suc (Suc (Suc 0)))) = 1"
  by (simp_all add: cumulative_Suc aligned_Psync)

lemma aligned_truncation: "truncation_step (Psync_spec_2 aligned_settings) 4"
  unfolding four truncation_step_def
  by (simp add: lessThan_Suc aligned_cumulative)

lemma aligned_expected:
  "expected_time (Psync_spec_2 aligned_settings) (Tsf_of aligned_settings)
     (getTeb aligned_settings) 4 = 2024256000"
  unfolding four aligned_facts
  by (simp add: expected_time_Suc aligned_Psync)

lemma aligned_cdf:
  "map (cumulative (Psync_spec_2 aligned_settings)) [0..<4 + 1] = [0, 1/4, 1/2, 3/4, 1]"
proof -
  have "[0..<4 + 1] = [0, Suc 0, Suc (Suc 0), Suc (Suc (Suc 0)), Suc (Suc (Suc (Suc 0)))]"
    by (simp add: upt_rec)
  then show ?thesis
    by (simp add: aligned_cumulative)
qed



lemma geometric_telescope:
  fixes p :: "nat \<Rightarrow> real"
  shows "(\<Sum>k = 1..<K + 1. (\<Prod>i = 1..<k. 1 - p i) * p k) = 1 - (\<Prod>i = 1..<K + 1. 1 - p i)"
  by (induction K) (simp_all add: algebra_simps)

lemma cumulative_1_closed:
  "cumulative (Psync_spec_1 P) K =
     (\<Sum>y = 0..<length (getCHS P).
        1 / real (length (getCHS P)) * (1 - (\<Prod>i = 1..<K + 1. 1 - Pstep_spec P i y)))"
proof -
  have "cumulative (Psync_spec_1 P) K =
      (\<Sum>y = 0..<length (getCHS P). \<Sum>k = 1..<K + 1.
         1 / real (length (getCHS P)) *
           ((\<Prod>i = 1..<k. 1 - Pstep_spec P i y) * Pstep_spec P k y))"
    unfolding cumulative_def Psync_spec_1_def by (rule sum.swap)
  also have "\<dots> = (\<Sum>y = 0..<length (getCHS P).
        1 / real (length (getCHS P)) *
          (\<Sum>k = 1..<K + 1. (\<Prod>i = 1..<k. 1 - Pstep_spec P i y) * Pstep_spec P k y))"
    by (simp only: sum_distrib_left)
  finally show ?thesis
    by (simp only: geometric_telescope)
qed

lemma prob_of_bounds:
  assumes "validly_constructed P" "c \<in> set (getCHS P)"
  shows "0 \<le> prob_of (getPsr P) c" "prob_of (getPsr P) c \<le> 1"
  using validly_constructed_facts(6) [OF assms(1)] assms(2)
  by (auto simp: prob_of_def)

lemma Pstep_spec_bounds:
  assumes v: "validly_constructed P" and ne: "getCHS P \<noteq> []"
  shows "0 \<le> Pstep_spec P k y" "Pstep_spec P k y \<le> 1"
proof -
  let ?C = "real (length (getCHS P))"
  let ?q = "prob_of (getPsr P) (X_spec P k y)"
  have C: "1 \<le> ?C" using ne by (cases "getCHS P") simp_all
  have q: "0 \<le> ?q" "?q \<le> 1"
    using prob_of_bounds [OF v X_spec_in_chs [OF ne]] by simp_all
  have e: "0 \<le> getPeb P" "getPeb P \<le> 1"
    using validly_constructed_facts(4,5) [OF v] by simp_all
  have pq: "0 \<le> getPeb P * ?q" "getPeb P * ?q \<le> 1"
    using q e by (simp_all add: mult_le_one)
  show "0 \<le> Pstep_spec P k y"
    unfolding Pstep_spec_def using C pq(1) by simp
  have "Pstep_spec P k y = (getPeb P * ?q) / ?C"
    by (simp add: Pstep_spec_def)
  also have "\<dots> \<le> 1 / ?C"
    using pq(2) C by (simp add: divide_right_mono)
  also have "\<dots> \<le> 1"
    using C by (simp add: divide_le_eq_1)
  finally show "Pstep_spec P k y \<le> 1" .
qed

lemma Pstep_spec_lower:
  assumes v: "validly_constructed P" and ne: "getCHS P \<noteq> []"
    and pe: "0 < getPeb P" and ps: "\<forall>c \<in> set (getCHS P). 0 < prob_of (getPsr P) c"
  shows "\<exists>d. 0 < d \<and> d \<le> 1 \<and> (\<forall>k y. d \<le> Pstep_spec P k y)"
proof -
  let ?C = "real (length (getCHS P))"
  let ?A = "prob_of (getPsr P) ` set (getCHS P)"
  have fin: "finite ?A" "?A \<noteq> {}"
    using ne by simp_all
  define m where "m = Min ?A"
  have "m \<in> ?A"
    unfolding m_def using fin by (rule Min_in)
  then have m0: "0 < m"
    using ps by auto
  have mle: "m \<le> prob_of (getPsr P) c" if "c \<in> set (getCHS P)" for c
    unfolding m_def using that fin(1) by simp
  have C: "0 < ?C" using ne by simp
  define d where "d = 1 / ?C * getPeb P * m"
  have d0: "0 < d"
    unfolding d_def using C pe m0 by simp
  have dle: "d \<le> Pstep_spec P k y" for k y
  proof -
    have "m \<le> prob_of (getPsr P) (X_spec P k y)"
      using mle X_spec_in_chs [OF ne] by simp
    then show ?thesis
      unfolding d_def Pstep_spec_def using C pe by (simp add: mult_left_mono divide_right_mono)
  qed
  have "d \<le> 1"
    using dle [of 1 0] Pstep_spec_bounds(2) [OF v ne, of 1 0] by linarith
  with d0 dle show ?thesis by blast
qed

lemma cumulative_1_lower:
  assumes v: "validly_constructed P" and ne: "getCHS P \<noteq> []"
    and d: "0 < d" "d \<le> 1" "\<And>k y. d \<le> Pstep_spec P k y"
  shows "1 - (1 - d) ^ K \<le> cumulative (Psync_spec_1 P) K"
proof -
  let ?n = "length (getCHS P)"
  have n: "0 < real ?n" using ne by simp
  have pr: "(\<Prod>i = 1..<K + 1. 1 - Pstep_spec P i y) \<le> (1 - d) ^ K" for y
  proof -
    have "(\<Prod>i = 1..<K + 1. 1 - Pstep_spec P i y) \<le> (\<Prod>i = 1..<K + 1. 1 - d)"
      using d(3) Pstep_spec_bounds(2) [OF v ne]
      by (intro prod_mono) simp
    then show ?thesis by simp
  qed
  have "(\<Sum>y = 0..<?n. 1 / real ?n * (1 - (1 - d) ^ K)) \<le>
        (\<Sum>y = 0..<?n. 1 / real ?n * (1 - (\<Prod>i = 1..<K + 1. 1 - Pstep_spec P i y)))"
    using pr n by (intro sum_mono mult_left_mono) simp_all
  moreover have "(\<Sum>y = 0..<?n. 1 / real ?n * (1 - (1 - d) ^ K)) = 1 - (1 - d) ^ K"
    using n by simp
  ultimately show ?thesis
    by (simp only: cumulative_1_closed)
qed

lemma truncation_step_exists:
  assumes "1 - 1 / 10 ^ 9 \<le> cumulative f K0"
  shows "\<exists>K. truncation_step f K"
proof -
  have "\<exists>K. 1 - 1 / 10 ^ 9 \<le> cumulative f K"
    using assms by blast
  then obtain K where "1 - 1 / 10 ^ 9 \<le> cumulative f K"
    and "\<forall>j < K. \<not> 1 - 1 / 10 ^ 9 \<le> cumulative f j"
    unfolding exists_least_iff [of "\<lambda>K. 1 - 1 / 10 ^ 9 \<le> cumulative f K"] by blast
  then have "truncation_step f K"
    by (auto simp: truncation_step_def not_le)
  then show ?thesis ..
qed

lemma case_1_reaches:
  assumes v: "validly_constructed P" and ne: "getCHS P \<noteq> []"
    and pe: "0 < getPeb P" and ps: "\<forall>c \<in> set (getCHS P). 0 < prob_of (getPsr P) c"
  shows "\<exists>K. truncation_step (Psync_spec_1 P) K"
proof -
  obtain d where d: "0 < d" "d \<le> 1" "\<And>k y. d \<le> Pstep_spec P k y"
    using Pstep_spec_lower [OF v ne pe ps] by blast
  have "1 - d < 1" using d(1) by simp
  then obtain K where K: "(1 - d) ^ K < 1 / 10 ^ 9"
    using real_arch_pow_inv [of "1 / 10 ^ 9" "1 - d"] by auto
  have "1 - 1 / 10 ^ 9 \<le> 1 - (1 - d) ^ K"
    using K by simp
  also have "\<dots> \<le> cumulative (Psync_spec_1 P) K"
    using v ne d by (rule cumulative_1_lower)
  finally show ?thesis
    by (rule truncation_step_exists)
qed

lemma build_W_any:
  assumes "validly_constructed P"
  shows "build_W (getCHS P) (getS P) (int (length (getCHS P))) = Inr (W_list P)"
proof (cases "getCHS P = []")
  case True
  then show ?thesis
    by (simp add: build_W_def W_list_def)
next
  case False
  with validly_constructed_facts(2) [OF assms] show ?thesis
    by (rule build_W_spec)
qed

lemma Psync_of_no_channel:
  assumes "getCHS P = []"
  shows "Psync_of (locals_of P) cond k = Inr 0"
  using assms by (simp add: Psync_of_def locals_of_def)

lemma Psync_1_spec_any:
  assumes "validly_constructed P" "1 \<le> k"
  shows "Psync_of (locals_of P) (Psync_cond_1 (locals_of P)) (int k) = Inr (Psync_spec_1 P k)"
proof (cases "getCHS P = []")
  case True
  then show ?thesis
    by (simp add: Psync_of_no_channel Psync_spec_1_no_channel)
next
  case False
  with assms show ?thesis
    by (intro Psync_1_spec)
qed

lemma Psync_2_spec_any:
  assumes "validly_constructed P" "1 \<le> k" "1 \<le> periods P"
  shows "Psync_of (locals_of P) (Psync_cond_2 (locals_of P) (int (periods P))) (int k) =
           Inr (Psync_spec_2 P k)"
proof (cases "getCHS P = []")
  case True
  then show ?thesis
    by (simp add: Psync_of_no_channel Psync_spec_2_no_channel)
next
  case False
  with assms show ?thesis
    by (intro Psync_2_spec)
qed

lemma locals_of_calculate:
  "\<lparr>loc_Peb = getPeb P, loc_C = int (length (getCHS P)), loc_Psr = getPsr P,
     loc_Tscan = getTScan P, loc_Tsf = DEFAULT_SLOT_DURATION * getS P,
     loc_Teb = getTeb P, loc_W = W_list P\<rparr> = locals_of P"
  by (simp add: locals_of_def Tsf_of_def)

lemma calculate_case_1_diverges:
  assumes v: "validly_constructed P"
    and c1: "getTScan P < Tsf_of P"
    and below: "\<And>j. cumulative (Psync_spec_1 P) j < 1 - 1 / 10 ^ 9"
  shows "calculate P results = None"
proof -
  let ?L = "locals_of P"
  have "sum_while (Psync_of ?L (Psync_cond_1 ?L)) (Tsf_of P) (getTeb P) 1 0 0 = None"
    using Psync_1_spec_any [OF v] below by (rule sum_while_diverges)
  then have "case_1 ?L = None"
    by (simp add: case_1_def sumOfExpectedValueInCases1and2_def locals_of_def)
  then show ?thesis
    unfolding calculate_def Let_def build_W_any [OF v] sum.case locals_of_calculate
    using c1 by (simp add: Tsf_of_def)
qed

lemma calculate_case_2_diverges:
  assumes v: "validly_constructed P"
    and c2: "\<not> getTScan P < Tsf_of P" "getTScan P mod Tsf_of P = 0"
    and below: "\<And>j. cumulative (Psync_spec_2 P) j < 1 - 1 / 10 ^ 9"
  shows "calculate P results = None"
proof -
  let ?L = "locals_of P"
  note n = periods_positive [OF v c2(1)]
  have Ps: "Psync_of ?L (Psync_cond_2 ?L (int (periods P))) (int k) = Inr (Psync_spec_2 P k)"
    if "1 \<le> k" for k
    using v that n(1) by (rule Psync_2_spec_any)
  have "sum_while (Psync_of ?L (Psync_cond_2 ?L (int (periods P)))) (Tsf_of P) (getTeb P)
          1 0 0 = None"
    using Ps below by (rule sum_while_diverges)
  then have "case_2 ?L = None"
    unfolding case_2_def Let_def n(2) sumOfExpectedValueInCases1and2_def
    by (simp add: locals_of_def)
  moreover have "0 < Tsf_of P"
    using validly_constructed_facts(2) [OF v]
    by (simp add: Tsf_of_def DEFAULT_SLOT_DURATION_def)
  then have "getTScan P smod (DEFAULT_SLOT_DURATION * getS P) = 0"
    using c2(2) validly_constructed_facts(7) [OF v]
    by (simp add: smod_nonneg Tsf_of_def)
  ultimately show ?thesis
    unfolding calculate_def Let_def build_W_any [OF v] sum.case locals_of_calculate
    using c2(1) by (simp add: Tsf_of_def)
qed

lemma Pstep_spec_zero:
  assumes "getPeb P = 0 \<or> (\<forall>c \<in> set (getCHS P). prob_of (getPsr P) c = 0)"
  shows "Pstep_spec P k y = 0"
proof (cases "getCHS P = []")
  case True
  then show ?thesis by (simp add: Pstep_spec_def)
next
  case False
  then have "X_spec P k y \<in> set (getCHS P)"
    by (rule X_spec_in_chs)
  with assms show ?thesis
    by (auto simp: Pstep_spec_def)
qed

lemma cumulative_zero:
  assumes "\<And>k. f k = 0"
  shows "cumulative f j < 1 - 1 / 10 ^ 9"
  by (simp add: cumulative_def assms)

lemma never_received_diverges:
  assumes v: "validly_constructed P"
    and c: "getTScan P < Tsf_of P \<or> getTScan P mod Tsf_of P = 0"
    and z: "getPeb P = 0 \<or> (\<forall>c \<in> set (getCHS P). prob_of (getPsr P) c = 0)"
  shows "calculate P results = None"
proof (cases "getTScan P < Tsf_of P")
  case True
  have "Psync_spec_1 P k = 0" for k
    by (simp add: Psync_spec_1_def Pstep_spec_zero [OF z])
  then have "cumulative (Psync_spec_1 P) j < 1 - 1 / 10 ^ 9" for j
    by (rule cumulative_zero)
  with v True show ?thesis
    by (rule calculate_case_1_diverges)
next
  case False
  with c have m: "getTScan P mod Tsf_of P = 0" by simp
  have "Psync_spec_2 P k = 0" for k
    by (simp add: Psync_spec_2_def Pstep_sp_spec_def Pstep_spec_zero [OF z])
  then have "cumulative (Psync_spec_2 P) j < 1 - 1 / 10 ^ 9" for j
    by (rule cumulative_zero)
  with v False m show ?thesis
    by (rule calculate_case_2_diverges)
qed

lemma silent_valid: "validly_constructed silent_settings"
  by (simp add: validly_constructed_def silent_settings_def main_pSR_def
      SyncParameters_ctor_def getCHS_def getS_def getPeb_def getPsr_def getTScan_def
      getTSwitch_def getTeb_def fcard_finsert_if gcd_4_101)

lemma silent_facts:
  "getTScan silent_settings < Tsf_of silent_settings" "getPeb silent_settings = 0"
  by (simp_all add: silent_settings_def getS_def getTScan_def getPeb_def Tsf_of_def
      DEFAULT_SLOT_DURATION_def)

lemma one_channel_facts:
  "getTScan one_channel_settings < Tsf_of one_channel_settings"
  "getCHS one_channel_settings \<noteq> []" "0 < getPeb one_channel_settings"
  "\<forall>c \<in> set (getCHS one_channel_settings). 0 < prob_of (getPsr one_channel_settings) c"
  by (simp_all add: one_channel_settings_def one_channel_pSR_def getS_def getTScan_def
      getPeb_def getCHS_def getPsr_def prob_of_def Tsf_of_def DEFAULT_SLOT_DURATION_def)




end
